theory Spec2Isabelle
  imports Complex_Main "HOL-Library.Word"
begin

unbundle bit_operations_syntax

section \<open>JavaScript values\<close>

text \<open>
  A string is the list of its UTF-16 code units, the values of \<open>charCodeAt\<close>; its
  \<open>length\<close> is the length of the list. \<open>js\<close> writes a string whose code units are
  below 256 from the characters of that code.
\<close>

type_synonym code_unit = "16 word"

type_synonym jsstring = "code_unit list"

definition js :: "string \<Rightarrow> jsstring" where
  "js s = map (\<lambda>c. of_nat (of_char c)) s"

text \<open>
  A JavaScript number is a finite double, negative zero, NaN or one of the two
  infinities. Every finite double other than \<open>-0\<close> is a rational, so \<open>Fin\<close> carries a
  \<open>rat\<close>: statements quantified over \<open>rat\<close> cover every finite double.
\<close>

datatype jsnumber = Fin rat | NegZero | NaN | PosInf | NegInf

text \<open>
  Runtime values (\<open>any\<close>). A function is known by an identifier only; an object is the
  list of its own enumerable properties in the order JavaScript enumerates them, which
  is the insertion order for property names that are not array indices.
\<close>

datatype jsvalue =
    JUndefined
  | JNull
  | JBool bool
  | JNumber jsnumber
  | JString jsstring
  | JFunction nat
  | JArray "jsvalue list"
  | JObject "(jsstring \<times> jsvalue) list"

type_synonym jsobject = "(jsstring \<times> jsvalue) list"

text \<open>\<open>ToBoolean\<close>: what \<open>!x\<close>, \<open>x && y\<close> and \<open>x || y\<close> test.\<close>

fun truthy :: "jsvalue \<Rightarrow> bool" where
  "truthy JUndefined = False"
| "truthy JNull = False"
| "truthy (JBool b) = b"
| "truthy (JNumber (Fin r)) = (r \<noteq> 0)"
| "truthy (JNumber NegZero) = False"
| "truthy (JNumber NaN) = False"
| "truthy (JNumber PosInf) = True"
| "truthy (JNumber NegInf) = True"
| "truthy (JString s) = (s \<noteq> [])"
| "truthy (JFunction f) = True"
| "truthy (JArray xs) = True"
| "truthy (JObject ps) = True"

fun js_typeof :: "jsvalue \<Rightarrow> jsstring" where
  "js_typeof JUndefined = js ''undefined''"
| "js_typeof JNull = js ''object''"
| "js_typeof (JBool b) = js ''boolean''"
| "js_typeof (JNumber n) = js ''number''"
| "js_typeof (JString s) = js ''string''"
| "js_typeof (JFunction f) = js ''function''"
| "js_typeof (JArray xs) = js ''object''"
| "js_typeof (JObject ps) = js ''object''"

text \<open>The global \<open>isFinite\<close> on a number, and \<open>Object.is(x, -0)\<close>.\<close>

fun isFinite :: "jsnumber \<Rightarrow> bool" where
  "isFinite (Fin r) = True"
| "isFinite NegZero = True"
| "isFinite NaN = False"
| "isFinite PosInf = False"
| "isFinite NegInf = False"

fun is_negative_zero :: "jsvalue \<Rightarrow> bool" where
  "is_negative_zero (JNumber NegZero) = True"
| "is_negative_zero v = False"

text \<open>
  \<open>Math.round\<close>: the nearest integer, ties towards \<open>+\<infinity>\<close>; the results in
  \<open>[-0.5, 0)\<close> are \<open>-0\<close>; NaN and the infinities are returned as they are.
\<close>

fun math_round :: "jsnumber \<Rightarrow> jsnumber" where
  "math_round (Fin r) =
     (if - (1 / 2) \<le> r \<and> r < 0 then NegZero else Fin (of_int \<lfloor>r + 1 / 2\<rfloor>))"
| "math_round NegZero = NegZero"
| "math_round NaN = NaN"
| "math_round PosInf = PosInf"
| "math_round NegInf = NegInf"

text \<open>The relational operators on numbers: every comparison with NaN is false.\<close>

fun js_less :: "jsnumber \<Rightarrow> jsnumber \<Rightarrow> bool" where
  "js_less NaN y = False"
| "js_less x NaN = False"
| "js_less PosInf y = False"
| "js_less x NegInf = False"
| "js_less NegInf y = True"
| "js_less x PosInf = True"
| "js_less (Fin a) (Fin b) = (a < b)"
| "js_less (Fin a) NegZero = (a < 0)"
| "js_less NegZero (Fin b) = (0 < b)"
| "js_less NegZero NegZero = False"

definition js_greater :: "jsnumber \<Rightarrow> jsnumber \<Rightarrow> bool" where
  "js_greater x y = js_less y x"

section \<open>Number and string conversions\<close>

definition digit_char :: "nat \<Rightarrow> char" where
  "digit_char d = ''0123456789abcdefghijklmnopqrstuvwxyz'' ! d"

text \<open>\<open>Number.prototype.toString(radix)\<close> on an integer.\<close>

function nat_to_radix :: "nat \<Rightarrow> nat \<Rightarrow> string" where
  "nat_to_radix b n =
     (if n < b \<or> b < 2 then [digit_char n]
      else nat_to_radix b (n div b) @ [digit_char (n mod b)])"
  by pat_completeness auto
termination
  by (relation "measure (\<lambda>(b, n). n)") auto

declare nat_to_radix.simps [simp del]

definition int_to_radix :: "nat \<Rightarrow> int \<Rightarrow> string" where
  "int_to_radix b i =
     (if i < 0 then CHR ''-'' # nat_to_radix b (nat (- i)) else nat_to_radix b (nat i))"

text \<open>
  \<open>Number::toString\<close> in decimal. An integer of magnitude at most \<open>2^53\<close> prints as its
  digits; the text of any other finite number is the host's shortest round-trip
  representation, taken as the parameter \<open>fmt\<close>.
\<close>

definition number_to_string :: "(rat \<Rightarrow> jsstring) \<Rightarrow> rat \<Rightarrow> jsstring" where
  "number_to_string fmt r =
     (if r = of_int \<lfloor>r\<rfloor> \<and> \<bar>r\<bar> \<le> 2 ^ 53 then js (int_to_radix 10 \<lfloor>r\<rfloor>) else fmt r)"

section \<open>\<open>JSON.stringify\<close>\<close>

text \<open>
  \<open>UnicodeEscape\<close>: a backslash, \<open>u\<close>, and the four lower-case hexadecimal digits of
  the code unit.
\<close>

definition unicode_escape :: "code_unit \<Rightarrow> jsstring" where
  "unicode_escape c =
     (let n = unat c in
      0x5C # js [CHR ''u'', digit_char (n div 4096), digit_char (n div 256 mod 16),
                 digit_char (n div 16 mod 16), digit_char (n mod 16)])"

definition is_leading_surrogate :: "code_unit \<Rightarrow> bool" where
  "is_leading_surrogate c = (0xD800 \<le> unat c \<and> unat c \<le> 0xDBFF)"

definition is_trailing_surrogate :: "code_unit \<Rightarrow> bool" where
  "is_trailing_surrogate c = (0xDC00 \<le> unat c \<and> unat c \<le> 0xDFFF)"

text \<open>
  The text of a code point that is one code unit: the quotation mark (\<open>0x22\<close>), the
  backslash (\<open>0x5C\<close>) and five control characters have a two-character escape, every
  other control character and every surrogate is written as its \<open>UnicodeEscape\<close>, and
  any other code unit stands for itself.
\<close>

definition json_escape :: "code_unit \<Rightarrow> jsstring" where
  "json_escape c =
     (let n = unat c in
      if n = 0x22 then [0x5C, 0x22]
      else if n = 0x5C then [0x5C, 0x5C]
      else if n = 0x08 then 0x5C # js ''b''
      else if n = 0x0C then 0x5C # js ''f''
      else if n = 0x0A then 0x5C # js ''n''
      else if n = 0x0D then 0x5C # js ''r''
      else if n = 0x09 then 0x5C # js ''t''
      else if n < 0x20 \<or> is_leading_surrogate c \<or> is_trailing_surrogate c then unicode_escape c
      else [c])"

text \<open>
  \<open>QuoteJSONString\<close> without the two quotation marks. The string is read code point by
  code point: a leading surrogate followed by a trailing one is a code point of two
  units, written as it is; any other code unit is a code point by itself.
\<close>

fun json_quote_units :: "jsstring \<Rightarrow> jsstring" where
  "json_quote_units [] = []"
| "json_quote_units [c] = json_escape c"
| "json_quote_units (c # d # cs) =
     (if is_leading_surrogate c \<and> is_trailing_surrogate d then c # d # json_quote_units cs
      else json_escape c @ json_quote_units (d # cs))"

definition json_quote :: "jsstring \<Rightarrow> jsstring" where
  "json_quote s = 0x22 # json_quote_units s @ [0x22]"

fun join_comma :: "jsstring list \<Rightarrow> jsstring" where
  "join_comma [] = []"
| "join_comma [x] = x"
| "join_comma (x # y # zs) = x @ js '','' @ join_comma (y # zs)"

definition json_number :: "(rat \<Rightarrow> jsstring) \<Rightarrow> jsnumber \<Rightarrow> jsstring" where
  "json_number fmt n =
     (case n of Fin r \<Rightarrow> number_to_string fmt r | NegZero \<Rightarrow> js ''0'' | _ \<Rightarrow> js ''null'')"

text \<open>
  \<open>JSON.stringify(v)\<close> is \<open>undefined\<close> (here \<open>None\<close>) for \<open>undefined\<close> and for a
  function. A property whose value serialises to \<open>undefined\<close> is left out of its object;
  such an element of an array is written \<open>null\<close>. Properties are written in the order
  of the list. (Objects with a \<open>toJSON\<close> method, cyclic objects and big integers are
  not among the values modelled.)
\<close>

fun json_stringify :: "(rat \<Rightarrow> jsstring) \<Rightarrow> jsvalue \<Rightarrow> jsstring option"
  and json_elements :: "(rat \<Rightarrow> jsstring) \<Rightarrow> jsvalue list \<Rightarrow> jsstring list"
  and json_members :: "(rat \<Rightarrow> jsstring) \<Rightarrow> (jsstring \<times> jsvalue) list \<Rightarrow> jsstring list"
where
  "json_stringify fmt JUndefined = None"
| "json_stringify fmt (JFunction f) = None"
| "json_stringify fmt JNull = Some (js ''null'')"
| "json_stringify fmt (JBool b) = Some (if b then js ''true'' else js ''false'')"
| "json_stringify fmt (JNumber n) = Some (json_number fmt n)"
| "json_stringify fmt (JString s) = Some (json_quote s)"
| "json_stringify fmt (JArray xs) = Some (js ''['' @ join_comma (json_elements fmt xs) @ js '']'')"
| "json_stringify fmt (JObject ps) = Some (js ''{'' @ join_comma (json_members fmt ps) @ js ''}'')"
| "json_elements fmt [] = []"
| "json_elements fmt (x # xs) =
     (case json_stringify fmt x of None \<Rightarrow> js ''null'' | Some s \<Rightarrow> s) # json_elements fmt xs"
| "json_members fmt [] = []"
| "json_members fmt ((k, v) # ps) =
     (case json_stringify fmt v of
        None \<Rightarrow> json_members fmt ps
      | Some s \<Rightarrow> (json_quote k @ js '':'' @ s) # json_members fmt ps)"

text \<open>\<open>ToString\<close> of a \<open>JSON.stringify\<close> result, as string concatenation applies it.\<close>

definition js_string_of :: "jsstring option \<Rightarrow> jsstring" where
  "js_string_of r = (case r of None \<Rightarrow> js ''undefined'' | Some s \<Rightarrow> s)"

section \<open>The hashing utility\<close>

text \<open>
  \<open>hashString\<close>: \<open>hash << 5\<close> and \<open>hash & hash\<close> work on 32-bit integers, so the
  accumulator is a 32-bit word, read as a signed integer by \<open>toString(36)\<close>. The code
  unit is added as the number between 0 and 65535 that \<open>charCodeAt\<close> returns.
\<close>

definition hash_step :: "32 word \<Rightarrow> code_unit \<Rightarrow> 32 word" where
  "hash_step hash c =
     (let h = (push_bit 5 hash - hash) + ucast c in h AND h)"

definition hashString :: "jsstring \<Rightarrow> jsstring" where
  "hashString str = js (int_to_radix 36 (sint (foldl hash_step 0 str)))"

section \<open>The bounded LRU store\<close>

text \<open>
  A JavaScript \<open>Map\<close> keeps its entries in insertion order: an association list,
  oldest entry first. \<open>Map.get\<close> is \<open>undefined\<close> for a key that is absent;
  \<open>Map.set\<close> on a key that is present replaces the value in place, and appends the
  entry otherwise.
\<close>

definition map_has :: "('k \<times> 'v) list \<Rightarrow> 'k \<Rightarrow> bool" where
  "map_has m k = (map_of m k \<noteq> None)"

definition map_get :: "('k \<times> jsvalue) list \<Rightarrow> 'k \<Rightarrow> jsvalue" where
  "map_get m k = (case map_of m k of None \<Rightarrow> JUndefined | Some v \<Rightarrow> v)"

definition map_delete :: "('k \<times> 'v) list \<Rightarrow> 'k \<Rightarrow> ('k \<times> 'v) list" where
  "map_delete m k = filter (\<lambda>p. fst p \<noteq> k) m"

definition map_set :: "('k \<times> 'v) list \<Rightarrow> 'k \<Rightarrow> 'v \<Rightarrow> ('k \<times> 'v) list" where
  "map_set m k v =
     (if map_has m k then map (\<lambda>p. if fst p = k then (k, v) else p) m else m @ [(k, v)])"

text \<open>
  The class \<open>LRUCache\<close>. Its type parameter for the values is erased at run time: a
  stored value is any value, \<open>undefined\<close> included. \<open>maxSize\<close> is the number the
  constructor was given, here an integer of either sign.
\<close>

record 'k lru_cache =
  cache :: "('k \<times> jsvalue) list"
  maxSize :: int

definition LRUCache :: "int \<Rightarrow> 'k lru_cache" where
  "LRUCache n = \<lparr>cache = [], maxSize = n\<rparr>"

definition lru_get :: "('k, 'm) lru_cache_scheme \<Rightarrow> 'k \<Rightarrow> jsvalue \<times> ('k, 'm) lru_cache_scheme" where
  "lru_get c key =
     (let v = map_get (cache c) key in
      if v \<noteq> JUndefined
      then (v, c\<lparr>cache := map_set (map_delete (cache c) key) key v\<rparr>)
      else (v, c))"

text \<open>
  \<open>set\<close>: on an empty store \<open>this.cache.keys().next().value\<close> is \<open>undefined\<close>, and
  deleting it removes nothing.
\<close>

definition lru_set :: "('k, 'm) lru_cache_scheme \<Rightarrow> 'k \<Rightarrow> jsvalue \<Rightarrow> ('k, 'm) lru_cache_scheme" where
  "lru_set c key v =
     (let m = cache c;
          m1 = (if map_has m key then map_delete m key
                else if maxSize c \<le> int (length m) then
                  (case m of [] \<Rightarrow> m | (firstKey, _) # _ \<Rightarrow> map_delete m firstKey)
                else m)
      in c\<lparr>cache := map_set m1 key v\<rparr>)"

definition lru_has :: "('k, 'm) lru_cache_scheme \<Rightarrow> 'k \<Rightarrow> bool" where
  "lru_has c key = map_has (cache c) key"

definition lru_clear :: "('k, 'm) lru_cache_scheme \<Rightarrow> ('k, 'm) lru_cache_scheme" where
  "lru_clear c = c\<lparr>cache := []\<rparr>"

definition lru_size :: "('k, 'm) lru_cache_scheme \<Rightarrow> nat" where
  "lru_size c = length (cache c)"

text \<open>The \<open>hitRate\<close> getter of the base class.\<close>

definition lru_hitRate :: "('k, 'm) lru_cache_scheme \<Rightarrow> rat" where
  "lru_hitRate c = 0"

section \<open>The instrumented cache\<close>

text \<open>
  The quotient of two numbers is a double again: the one nearest to the exact
  quotient, ties going to the even significand. For natural numbers \<open>h \<le> t\<close> that are
  doubles themselves, \<open>significand_shift h t 0\<close> is the power of two that scales the
  quotient into the range of a 53-bit significand, \<open>[2^52, 2^53)\<close>, and
  \<open>double_quotient h t\<close> is the value of the double \<open>h / t\<close>, as a rational.
\<close>

function significand_shift :: "nat \<Rightarrow> nat \<Rightarrow> nat \<Rightarrow> nat" where
  "significand_shift h t k =
     (if h = 0 \<or> t * 2 ^ 52 \<le> h * 2 ^ k then k else significand_shift h t (Suc k))"
  by pat_completeness auto
termination
proof (relation "measure (\<lambda>(h, t, k). t * 2 ^ 52 - h * 2 ^ k)")
  show "wf (measure (\<lambda>(h, t, k). t * 2 ^ 52 - h * 2 ^ k))" by simp
next
  fix h t k :: nat
  assume a: "\<not> (h = 0 \<or> t * 2 ^ 52 \<le> h * 2 ^ k)"
  define x where "x = h * 2 ^ k"
  have "0 < x" and "x < t * 2 ^ 52" using a by (simp_all add: x_def)
  then have "t * 2 ^ 52 - 2 * x < t * 2 ^ 52 - x" by arith
  moreover have "h * 2 ^ Suc k = 2 * x" by (simp add: x_def)
  ultimately have "t * 2 ^ 52 - h * 2 ^ Suc k < t * 2 ^ 52 - h * 2 ^ k"
    by (simp only: x_def)
  then show "((h, t, Suc k), (h, t, k)) \<in> measure (\<lambda>(h, t, k). t * 2 ^ 52 - h * 2 ^ k)"
    by simp
qed

declare significand_shift.simps [simp del]

text \<open>\<open>round_half_even n d\<close>: the integer nearest to \<open>n / d\<close>, a tie going to the even one.\<close>

definition round_half_even :: "nat \<Rightarrow> nat \<Rightarrow> nat" where
  "round_half_even n d =
     (let f = n div d; r = n mod d in
      if 2 * r < d then f
      else if d < 2 * r then f + 1
      else if even f then f else f + 1)"

definition double_quotient :: "nat \<Rightarrow> nat \<Rightarrow> rat" where
  "double_quotient h t =
     (if h = 0 then 0
      else (let k = significand_shift h t 0 in
            of_nat (round_half_even (h * 2 ^ k) t) / 2 ^ k))"

text \<open>
  The class \<open>TrackedLRUCache\<close> extends the store by two counters. The counters are
  natural numbers: the doubles of the code count exactly up to \<open>2^53\<close>. \<open>hitRate\<close>
  is the double \<open>this.hits / total\<close>.
\<close>

record 'k tracked_lru_cache = "'k lru_cache" +
  hits :: nat
  misses :: nat

definition TrackedLRUCache :: "int \<Rightarrow> 'k tracked_lru_cache" where
  "TrackedLRUCache n = \<lparr>cache = [], maxSize = n, hits = 0, misses = 0\<rparr>"

definition tracked_get :: "'k tracked_lru_cache \<Rightarrow> 'k \<Rightarrow> jsvalue \<times> 'k tracked_lru_cache" where
  "tracked_get c key =
     (let (v, c1) = lru_get c key in
      if v \<noteq> JUndefined then (v, c1\<lparr>hits := hits c1 + 1\<rparr>)
      else (v, c1\<lparr>misses := misses c1 + 1\<rparr>))"

definition hitRate :: "'k tracked_lru_cache \<Rightarrow> rat" where
  "hitRate c =
     (let total = hits c + misses c in
      if total = 0 then 0 else double_quotient (hits c) total)"

record cache_stats =
  stats_hits :: nat
  stats_misses :: nat
  stats_hitRate :: rat
  stats_size :: nat

definition stats :: "'k tracked_lru_cache \<Rightarrow> cache_stats" where
  "stats c =
     \<lparr>stats_hits = hits c, stats_misses = misses c, stats_hitRate = hitRate c,
      stats_size = lru_size c\<rparr>"

definition resetStats :: "'k tracked_lru_cache \<Rightarrow> 'k tracked_lru_cache" where
  "resetStats c = c\<lparr>hits := 0, misses := 0\<rparr>"

section \<open>The external engine\<close>

text \<open>
  The lexer, parser, composer, document class, error pretty-printer and number
  formatting are collaborators outside this development. They enter as the fields of
  a record, and every statement below holds for every such record.
\<close>

record yaml_error =
  err_pos :: "nat \<times> nat"
  err_code :: jsstring
  err_message :: jsstring

text \<open>
  A composed document: \<open>logLevel\<close> is \<open>doc.options.logLevel\<close>, \<open>doc_range\<close> is
  \<open>doc.range\<close>, a triple of offsets.
\<close>

record 'c document =
  contents :: 'c
  errors :: "yaml_error list"
  warnings :: "yaml_error list"
  logLevel :: jsstring
  doc_range :: "nat \<times> nat \<times> nat"

text \<open>What a call can throw: \<open>doc.errors[0]\<close>, a \<open>TypeError\<close> of the runtime, or an error of the engine.\<close>

datatype thrown = YAMLParseError yaml_error | TypeError | EngineError jsstring

text \<open>The \<open>value\<close> argument of \<open>stringify\<close>: \<open>isDocument(value)\<close> holds for the first constructor only.\<close>

datatype 'c js_input = DocumentValue "'c document" | PlainValue jsvalue

text \<open>The second argument of \<open>parse\<close>: absent, a reviver function, or an options object.\<close>

datatype reviver_arg = NoReviver | Reviver nat | ReviverOptions jsobject

text \<open>The second and third arguments of \<open>stringify\<close>, as their declared types list them.\<close>

datatype replacer_arg =
    NoReplacer
  | NullReplacer
  | ReplacerFunction nat
  | ReplacerArray "jsvalue list"
  | ReplacerOptions jsobject

datatype options_arg = NoOptions | StringOptions jsstring | NumberOptions jsnumber | ObjectOptions jsobject

text \<open>
  \<^item> \<open>compose source lineCounter options\<close>: the documents that
    \<open>new Composer(options).compose(new Parser(lineCounter?.addNewLine).parse(source), true, source.length)\<close>
    yields, in order;
  \<^item> \<open>prettifyError source lineCounter\<close>: what the pretty-printer makes of an error;
  \<^item> \<open>toJS doc opts\<close>: \<open>doc.toJS(opts)\<close>;
  \<^item> \<open>documentToString doc options\<close>: \<open>doc.toString(options)\<close>;
  \<^item> \<open>newDocumentToString value replacer options\<close>:
    \<open>new Document(value, replacer, options).toString(options)\<close>;
  \<^item> \<open>numberToString\<close>: the host's text of a number that is not a small integer.
\<close>

record 'c engine =
  compose :: "jsstring \<Rightarrow> jsvalue \<Rightarrow> jsobject \<Rightarrow> 'c document list"
  prettifyError :: "jsstring \<Rightarrow> jsvalue \<Rightarrow> yaml_error \<Rightarrow> yaml_error"
  toJS :: "'c document \<Rightarrow> jsobject \<Rightarrow> thrown + jsvalue"
  documentToString :: "'c document \<Rightarrow> jsobject option \<Rightarrow> thrown + jsstring"
  newDocumentToString :: "'c js_input \<Rightarrow> replacer_arg \<Rightarrow> jsobject option \<Rightarrow> thrown + jsstring"
  numberToString :: "rat \<Rightarrow> jsstring"

section \<open>The two process-wide caches\<close>

text \<open>
  The module's state: \<open>parseCache\<close>, \<open>stringifyCache\<close>, and the calls made to
  \<open>warn(logLevel, warning)\<close> so far.
\<close>

record yaml_state =
  parseCache :: "jsstring tracked_lru_cache"
  stringifyCache :: "jsstring tracked_lru_cache"
  warned :: "(jsstring \<times> yaml_error) list"

definition initial_state :: yaml_state where
  "initial_state =
     \<lparr>parseCache = TrackedLRUCache 2000, stringifyCache = TrackedLRUCache 2000, warned = []\<rparr>"

record all_stats =
  parse_stats :: cache_stats
  stringify_stats :: cache_stats

definition getCacheStats :: "yaml_state \<Rightarrow> all_stats" where
  "getCacheStats st =
     \<lparr>parse_stats = stats (parseCache st), stringify_stats = stats (stringifyCache st)\<rparr>"

definition clearCaches :: "yaml_state \<Rightarrow> yaml_state" where
  "clearCaches st =
     st\<lparr>parseCache := lru_clear (parseCache st), stringifyCache := lru_clear (stringifyCache st)\<rparr>"

section \<open>\<open>parseDocument\<close>\<close>

text \<open>A \<open>LineCounter\<close> instance: an object, so truthy.\<close>

definition new_LineCounter :: jsvalue where
  "new_LineCounter = JObject [(js ''lineStarts'', JArray [])]"

definition parseOptions :: "jsobject \<Rightarrow> jsvalue \<times> bool" where
  "parseOptions options =
     (let prettyErrors = (map_get options (js ''prettyErrors'') \<noteq> JBool False);
          lineCounter =
            (if truthy (map_get options (js ''lineCounter''))
             then map_get options (js ''lineCounter'')
             else if prettyErrors then new_LineCounter
             else JNull)
      in (lineCounter, prettyErrors))"

definition multiple_docs_error :: "'c document \<Rightarrow> yaml_error" where
  "multiple_docs_error d =
     \<lparr>err_pos = (case doc_range d of (a, b, c) \<Rightarrow> (a, b)),
      err_code = js ''MULTIPLE_DOCS'',
      err_message = js ''Source contains multiple documents; please use YAML.parseAllDocuments()''\<rparr>"

text \<open>
  The \<open>for ... of\<close> loop over the composer's generator. The result is \<open>doc\<close> and the
  documents the generator was not asked for: \<open>break\<close> leaves the rest unconsumed.
\<close>

fun parseDocument_loop ::
  "'c document option \<Rightarrow> 'c document list \<Rightarrow> 'c document option \<times> 'c document list" where
  "parseDocument_loop doc [] = (doc, [])"
| "parseDocument_loop None (d # ds) = parseDocument_loop (Some d) ds"
| "parseDocument_loop (Some doc) (d # ds) =
     (if logLevel doc \<noteq> js ''silent''
      then (Some (doc\<lparr>errors := errors doc @ [multiple_docs_error d]\<rparr>), ds)
      else parseDocument_loop (Some doc) ds)"

text \<open>
  \<open>doc\<close> is \<open>null\<close> when the generator yields nothing; \<open>doc.errors\<close> then throws a
  \<open>TypeError\<close>. An absent \<open>options\<close> argument defaults to \<open>{}\<close>.
\<close>

definition parseDocument ::
  "'c engine \<Rightarrow> jsstring \<Rightarrow> jsobject option \<Rightarrow> thrown + 'c document option" where
  "parseDocument E source options_arg =
     (let options = (case options_arg of None \<Rightarrow> [] | Some ps \<Rightarrow> ps);
          (lineCounter, prettyErrors) = parseOptions options;
          (doc, unconsumed) = parseDocument_loop None (compose E source lineCounter options)
      in if prettyErrors \<and> truthy lineCounter then
           (case doc of
              None \<Rightarrow> Inl TypeError
            | Some d \<Rightarrow>
                Inr (Some (d\<lparr>errors := map (prettifyError E source lineCounter) (errors d),
                              warnings := map (prettifyError E source lineCounter) (warnings d)\<rparr>)))
         else Inr doc)"

section \<open>\<open>parse\<close>\<close>

text \<open>\<open>Object.assign(target, source)\<close> on property lists.\<close>

definition object_assign :: "jsobject \<Rightarrow> jsobject \<Rightarrow> jsobject" where
  "object_assign target source = foldl (\<lambda>t p. map_set t (fst p) (snd p)) target source"

text \<open>\<open>JSON.stringify(options || {})\<close>, as a string.\<close>

definition options_json :: "'c engine \<Rightarrow> jsobject option \<Rightarrow> jsstring" where
  "options_json E options =
     js_string_of (json_stringify (numberToString E)
       (JObject (case options of None \<Rightarrow> [] | Some ps \<Rightarrow> ps)))"

definition parse_cacheKey ::
  "'c engine \<Rightarrow> jsstring \<Rightarrow> nat option \<Rightarrow> jsobject option \<Rightarrow> jsstring" where
  "parse_cacheKey E src reviver options =
     hashString (src @ options_json E options @ (if reviver \<noteq> None then js ''reviver'' else []))"

text \<open>
  The first statements of \<open>parse\<close>: an object in the place of the reviver is the
  options when no third argument is given.
\<close>

definition parse_options :: "reviver_arg \<Rightarrow> jsobject option \<Rightarrow> jsobject option" where
  "parse_options reviver options_arg =
     (case reviver of
        ReviverOptions ps \<Rightarrow> (if options_arg = None then Some ps else options_arg)
      | _ \<Rightarrow> options_arg)"

definition parse ::
  "'c engine \<Rightarrow> yaml_state \<Rightarrow> jsstring \<Rightarrow> reviver_arg \<Rightarrow> jsobject option \<Rightarrow>
     (thrown + jsvalue) \<times> yaml_state" where
  "parse E st src reviver options_arg =
     (let reviver' = (case reviver of Reviver f \<Rightarrow> Some f | _ \<Rightarrow> None);
          options = parse_options reviver options_arg;
          cacheKey = parse_cacheKey E src reviver' options;
          (cached, st1) =
            (if reviver' = None
             then (let (v, c) = tracked_get (parseCache st) cacheKey in (v, st\<lparr>parseCache := c\<rparr>))
             else (JUndefined, st))
      in if reviver' = None \<and> cached \<noteq> JUndefined then (Inr cached, st1)
         else
           (case parseDocument E src options of
              Inl t \<Rightarrow> (Inl t, st1)
            | Inr None \<Rightarrow>
                (Inr JNull,
                 if reviver' = None
                 then st1\<lparr>parseCache := lru_set (parseCache st1) cacheKey JNull\<rparr>
                 else st1)
            | Inr (Some doc) \<Rightarrow>
                (let st2 = st1\<lparr>warned := warned st1 @ map (\<lambda>w. (logLevel doc, w)) (warnings doc)\<rparr>
                 in if errors doc \<noteq> [] \<and> logLevel doc \<noteq> js ''silent''
                    then (Inl (YAMLParseError (hd (errors doc))), st2)
                    else
                      (let doc1 = (if errors doc \<noteq> [] then doc\<lparr>errors := []\<rparr> else doc);
                           reviver_prop = (case reviver' of None \<Rightarrow> JUndefined | Some f \<Rightarrow> JFunction f);
                           toJS_options =
                             object_assign [(js ''reviver'', reviver_prop)]
                               (case options of None \<Rightarrow> [] | Some ps \<Rightarrow> ps)
                       in case toJS E doc1 toJS_options of
                            Inl t \<Rightarrow> (Inl t, st2)
                          | Inr result \<Rightarrow>
                              (Inr result,
                               if reviver' = None
                               then st2\<lparr>parseCache := lru_set (parseCache st2) cacheKey result\<rparr>
                               else st2)))))"

section \<open>\<open>stringify\<close>\<close>

text \<open>
  The legacy forms of the options argument: a string stands for its length, a number
  is rounded and then compared with 1 and 8.
\<close>

definition normalize_options :: "options_arg \<Rightarrow> options_arg" where
  "normalize_options options =
     (let options1 =
            (case options of
               StringOptions s \<Rightarrow> NumberOptions (Fin (of_nat (length s)))
             | _ \<Rightarrow> options)
      in case options1 of
           NumberOptions n \<Rightarrow>
             (let indent = math_round n in
              if js_less indent (Fin 1) then NoOptions
              else if js_greater indent (Fin 8) then ObjectOptions [(js ''indent'', JNumber (Fin 8))]
              else ObjectOptions [(js ''indent'', JNumber indent)])
         | _ \<Rightarrow> options1)"

text \<open>
  \<open>_replacer\<close> is the replacer when that is a function or an array, \<open>null\<close> (here
  \<open>NoReplacer\<close>) otherwise.
\<close>

definition effective_replacer :: "replacer_arg \<Rightarrow> replacer_arg" where
  "effective_replacer replacer =
     (case replacer of
        ReplacerFunction f \<Rightarrow> ReplacerFunction f
      | ReplacerArray xs \<Rightarrow> ReplacerArray xs
      | _ \<Rightarrow> NoReplacer)"

text \<open>The options after the first two statements of \<open>stringify\<close> and the normalisation.\<close>

definition effective_options :: "replacer_arg \<Rightarrow> options_arg \<Rightarrow> options_arg" where
  "effective_options replacer options =
     normalize_options
       (case replacer of
          ReplacerOptions ps \<Rightarrow> (if options = NoOptions then ObjectOptions ps else options)
        | _ \<Rightarrow> options)"

text \<open>
  After the normalisation the options are \<open>undefined\<close> or an object; this reads them
  as such (the other two forms do not reach it).
\<close>

definition options_object :: "options_arg \<Rightarrow> jsobject option" where
  "options_object options = (case options of ObjectOptions ps \<Rightarrow> Some ps | _ \<Rightarrow> None)"

text \<open>\<open>(options ?? replacer ?? {}).keepUndefined\<close>.\<close>

definition keepUndefined :: "replacer_arg \<Rightarrow> options_arg \<Rightarrow> jsvalue" where
  "keepUndefined replacer options =
     (case options_object options of
        Some ps \<Rightarrow> map_get ps (js ''keepUndefined'')
      | None \<Rightarrow>
          (case replacer of
             ReplacerOptions ps \<Rightarrow> map_get ps (js ''keepUndefined'')
           | _ \<Rightarrow> JUndefined))"

definition canCache :: "jsvalue \<Rightarrow> bool" where
  "canCache v =
     (let valueType = js_typeof v in
      valueType = js ''string'' \<or> valueType = js ''boolean'' \<or>
      (valueType = js ''number'' \<and> (case v of JNumber n \<Rightarrow> isFinite n | _ \<Rightarrow> False)
         \<and> \<not> is_negative_zero v) \<or>
      v = JNull)"

definition stringify_cacheKey :: "'c engine \<Rightarrow> jsvalue \<Rightarrow> jsobject option \<Rightarrow> jsstring" where
  "stringify_cacheKey E v options =
     hashString (js_string_of (json_stringify (numberToString E) v) @ options_json E options)"

text \<open>The last two statements of \<open>stringify\<close>: no cache is involved.\<close>

definition stringify_uncached ::
  "'c engine \<Rightarrow> 'c js_input \<Rightarrow> replacer_arg \<Rightarrow> jsobject option \<Rightarrow> thrown + jsvalue" where
  "stringify_uncached E input replacer' options =
     (case (input, replacer') of
        (DocumentValue d, NoReplacer) \<Rightarrow> map_sum id JString (documentToString E d options)
      | _ \<Rightarrow> map_sum id JString (newDocumentToString E input replacer' options))"

definition stringify ::
  "'c engine \<Rightarrow> yaml_state \<Rightarrow> 'c js_input \<Rightarrow> replacer_arg \<Rightarrow> options_arg \<Rightarrow>
     (thrown + jsvalue) \<times> yaml_state" where
  "stringify E st input replacer options_arg =
     (let replacer' = effective_replacer replacer;
          options1 = effective_options replacer options_arg;
          options = options_object options1
      in if input = PlainValue JUndefined \<and> \<not> truthy (keepUndefined replacer options1)
         then (Inr JUndefined, st)
         else
           (case (replacer', input) of
              (NoReplacer, PlainValue v) \<Rightarrow>
                (if canCache v then
                   (let cacheKey = stringify_cacheKey E v options;
                        (cached, c) = tracked_get (stringifyCache st) cacheKey;
                        st1 = st\<lparr>stringifyCache := c\<rparr>
                    in if cached \<noteq> JUndefined then (Inr cached, st1)
                       else
                         (case newDocumentToString E input replacer' options of
                            Inl t \<Rightarrow> (Inl t, st1)
                          | Inr result \<Rightarrow>
                              (Inr (JString result),
                               st1\<lparr>stringifyCache :=
                                     lru_set (stringifyCache st1) cacheKey (JString result)\<rparr>)))
                 else (stringify_uncached E input replacer' options, st))
            | _ \<Rightarrow> (stringify_uncached E input replacer' options, st)))"

section \<open>Sequences of store operations\<close>

text \<open>
  What a \<open>Map\<close> guarantees (no key twice) together with the bound of the store:
  \<open>size \<le> maxSize\<close>.
\<close>

definition lru_invariant :: "('k, 'm) lru_cache_scheme \<Rightarrow> bool" where
  "lru_invariant c = (distinct (map fst (cache c)) \<and> int (lru_size c) \<le> maxSize c)"

text \<open>
  A caller of the instrumented cache: the operations it may issue, what each returns,
  and a run of a list of them.
\<close>

datatype 'k cache_op = Get 'k | Set 'k jsvalue | Has 'k | Clear | ResetStats

datatype cache_reply = GotValue jsvalue | GotBool bool | Returned

fun apply_op :: "'k tracked_lru_cache \<Rightarrow> 'k cache_op \<Rightarrow> cache_reply \<times> 'k tracked_lru_cache" where
  "apply_op c (Get k) = (let (v, c') = tracked_get c k in (GotValue v, c'))"
| "apply_op c (Set k v) = (Returned, lru_set c k v)"
| "apply_op c (Has k) = (GotBool (lru_has c k), c)"
| "apply_op c Clear = (Returned, lru_clear c)"
| "apply_op c ResetStats = (Returned, resetStats c)"

fun run_ops ::
  "'k tracked_lru_cache \<Rightarrow> 'k cache_op list \<Rightarrow> cache_reply list \<times> 'k tracked_lru_cache" where
  "run_ops c [] = ([], c)"
| "run_ops c (x # xs) =
     (let (r, c1) = apply_op c x; (rs, c2) = run_ops c1 xs in (r # rs, c2))"


section \<open>The cacheability rule of \<open>stringify\<close>, as the specification words it\<close>

text \<open>
  The allow-list: a string, a boolean, a finite number other than negative zero, or
  \<open>null\<close>.
\<close>

fun allow_listed :: "jsvalue \<Rightarrow> bool" where
  "allow_listed (JString s) = True"
| "allow_listed (JBool b) = True"
| "allow_listed (JNumber (Fin r)) = True"
| "allow_listed JNull = True"
| "allow_listed v = False"

text \<open>A replacer function or array is supplied.\<close>

fun supplies_replacer :: "replacer_arg \<Rightarrow> bool" where
  "supplies_replacer (ReplacerFunction f) = True"
| "supplies_replacer (ReplacerArray xs) = True"
| "supplies_replacer r = False"

definition stringify_cacheable :: "replacer_arg \<Rightarrow> 'c js_input \<Rightarrow> bool" where
  "stringify_cacheable replacer input =
     (\<not> supplies_replacer replacer \<and>
      (case input of DocumentValue d \<Rightarrow> False | PlainValue v \<Rightarrow> allow_listed v))"

section \<open>Values that \<open>JSON.stringify\<close> writes in full\<close>

text \<open>An integer of magnitude at most \<open>2^53\<close>: its text is its digits.\<close>

definition safe_integer :: "rat \<Rightarrow> bool" where
  "safe_integer r = (r = of_int \<lfloor>r\<rfloor> \<and> \<bar>r\<bar> \<le> 2 ^ 53)"

text \<open>
  What ECMAScript lays down for the text of a finite number: it is made of digits, a
  sign, a point and the letter \<open>e\<close>, and it reads back as the number it was written
  from, so that two numbers have two texts.
\<close>

definition number_format_faithful :: "(rat \<Rightarrow> jsstring) \<Rightarrow> bool" where
  "number_format_faithful fmt =
     ((\<forall>r s. number_to_string fmt r = number_to_string fmt s \<longrightarrow> r = s) \<and>
      (\<forall>r. number_to_string fmt r \<noteq> [] \<and>
           set (number_to_string fmt r) \<subseteq> set (js ''0123456789+-.e'')))"

text \<open>
  The values that can be read back from their JSON text: \<open>null\<close>, a boolean, a string,
  a finite number other than \<open>-0\<close> (a safe integer under any number format, any other
  under a faithful one), and an array or an object made of such values. \<open>undefined\<close>,
  a function, \<open>-0\<close>, NaN and the infinities are not among them.
\<close>

fun json_faithful :: "(rat \<Rightarrow> jsstring) \<Rightarrow> jsvalue \<Rightarrow> bool" where
  "json_faithful fmt JNull = True"
| "json_faithful fmt (JBool b) = True"
| "json_faithful fmt (JString s) = True"
| "json_faithful fmt (JNumber (Fin r)) = (safe_integer r \<or> number_format_faithful fmt)"
| "json_faithful fmt (JArray xs) = list_all (json_faithful fmt) xs"
| "json_faithful fmt (JObject ps) = list_all (\<lambda>p. json_faithful fmt (snd p)) ps"
| "json_faithful fmt v = False"

section \<open>Reviver arguments\<close>

text \<open>The second argument of \<open>parse\<close> is a reviver function.\<close>

fun is_reviver :: "reviver_arg \<Rightarrow> bool" where
  "is_reviver (Reviver f) = True"
| "is_reviver r = False"

section \<open>Sample engines\<close>

text \<open>
  Engines for concrete runs: the composer yields the given documents whatever the
  source, the pretty-printer leaves an error as it is, a document converts to \<open>null\<close>,
  or to the string \<open>revived\<close> when the options of \<open>toJS\<close> hold a reviver function, and
  every value prints as one fixed line. \<open>ratio_text\<close> stands in for the host's text of
  a number that is not a small integer; it is not that text, but like it it is made of
  digits and signs and tells any two numbers apart: the numerator, a plus sign, the
  denominator.
\<close>

definition ratio_text :: "rat \<Rightarrow> jsstring" where
  "ratio_text r =
     (case quotient_of r of (a, b) \<Rightarrow> js (int_to_radix 10 a @ ''+'' @ int_to_radix 10 b))"

definition sample_doc :: "jsstring \<Rightarrow> yaml_error list \<Rightarrow> nat \<times> nat \<times> nat \<Rightarrow> unit document" where
  "sample_doc level errs rng =
     \<lparr>contents = (), errors = errs, warnings = [], logLevel = level, doc_range = rng\<rparr>"

definition engine_yielding :: "unit document list \<Rightarrow> unit engine" where
  "engine_yielding docs =
     \<lparr>compose = (\<lambda>source lineCounter options. docs),
      prettifyError = (\<lambda>source lineCounter e. e),
      toJS = (\<lambda>d opts.
        Inr (case map_get opts (js ''reviver'') of
               JFunction f \<Rightarrow> JString (js ''revived'')
             | _ \<Rightarrow> JNull)),
      documentToString = (\<lambda>d opts. Inr (js [CHR ''a'', CHR 0x0A])),
      newDocumentToString = (\<lambda>v r opts. Inr (js [CHR ''a'', CHR 0x0A])),
      numberToString = ratio_text\<rparr>"

definition syntax_error :: yaml_error where
  "syntax_error =
     \<lparr>err_pos = (1, 2), err_code = js ''MISSING_CHAR'',
      err_message = js ''Flow sequence must end with a ]''\<rparr>"

text \<open>
  A source of two documents: the lines \<open>---\<close>, \<open>doc: 1\<close>, \<open>---\<close> and \<open>doc: 2\<close>, each
  ended by a line feed.
\<close>

definition two_docs_source :: jsstring where
  "two_docs_source =
     js (''---'' @ [CHR 0x0A] @ ''doc: 1'' @ [CHR 0x0A] @ ''---'' @ [CHR 0x0A] @ ''doc: 2'' @ [CHR 0x0A])"

section \<open>Strings written with \<open>js\<close>\<close>

lemma of_char_lt_256: "(of_char c :: nat) < 256"
  by (metis of_char_mod_256 mod_less_divisor zero_less_numeral)

lemma unat_js_unit: "unat (of_nat (of_char c) :: 16 word) = of_char c"
proof -
  have "(of_char c :: nat) < 65536" using of_char_lt_256[of c] by linarith
  then show ?thesis by (simp add: unat_of_nat)
qed

lemma js_inj [simp]: "js s = js t \<longleftrightarrow> s = t"
proof -
  have "inj (\<lambda>c. of_nat (of_char c) :: 16 word)"
  proof (rule injI)
    fix x y :: char
    assume "(of_nat (of_char x) :: 16 word) = of_nat (of_char y)"
    then have "unat (of_nat (of_char x) :: 16 word) = unat (of_nat (of_char y) :: 16 word)"
      by simp
    then show "x = y" by (simp add: unat_js_unit)
  qed
  then show ?thesis by (simp add: js_def inj_map_eq_map)
qed

lemma js_Nil [simp]: "js [] = []"
  by (simp add: js_def)

lemma js_eq_Nil [simp]: "js s = [] \<longleftrightarrow> s = []"
  by (simp add: js_def)

lemma js_append: "js (s @ t) = js s @ js t"
  by (simp add: js_def)

lemma js_Cons: "js (c # s) = of_nat (of_char c) # js s"
  by (simp add: js_def)

section \<open>Facts about the \<open>Map\<close> operations\<close>

lemma map_has_iff: "map_has m k \<longleftrightarrow> k \<in> fst ` set m"
  by (simp add: map_has_def map_of_eq_None_iff)

lemma map_has_delete: "map_has (map_delete m k) k' \<longleftrightarrow> map_has m k' \<and> k' \<noteq> k"
  by (auto simp: map_has_iff map_delete_def)

lemma map_of_delete: "map_of (map_delete m k) k' = (if k' = k then None else map_of m k')"
  by (induction m) (auto simp: map_delete_def)

lemma map_of_set: "map_of (map_set m k v) k' = (if k' = k then Some v else map_of m k')"
proof (cases "map_has m k")
  case True
  have "map_of (map (\<lambda>p. if fst p = k then (k, v) else p) m) k' =
        (if k' = k \<and> map_has m k then Some v else map_of m k')"
    by (induction m) (auto simp: map_has_def)
  with True show ?thesis by (simp add: map_set_def)
next
  case False
  then show ?thesis by (auto simp: map_set_def map_has_def map_add_def split: option.splits)
qed

lemma map_get_set: "map_get (map_set m k v) k' = (if k' = k then v else map_get m k')"
  by (simp add: map_get_def map_of_set)

lemma map_has_set: "map_has (map_set m k v) k' \<longleftrightarrow> k' = k \<or> map_has m k'"
  by (simp add: map_has_def map_of_set)

lemma map_set_fresh: "\<not> map_has m k \<Longrightarrow> map_set m k v = m @ [(k, v)]"
  by (simp add: map_set_def)

lemma map_delete_absent: "\<not> map_has m k \<Longrightarrow> map_delete m k = m"
  by (induction m) (auto simp: map_delete_def map_has_iff)

lemma length_map_delete_le: "length (map_delete m k) \<le> length m"
  by (simp add: map_delete_def)

lemma keys_map_delete: "map fst (map_delete m k) = removeAll k (map fst m)"
  by (induction m) (auto simp: map_delete_def)

lemma distinct_map_delete: "distinct (map fst m) \<Longrightarrow> distinct (map fst (map_delete m k))"
  by (simp add: keys_map_delete distinct_removeAll)

lemma length_map_delete_present:
  "distinct (map fst m) \<Longrightarrow> map_has m k \<Longrightarrow> Suc (length (map_delete m k)) = length m"
proof -
  assume d: "distinct (map fst m)" and h: "map_has m k"
  have "length (map_delete m k) = length (removeAll k (map fst m))"
    by (metis keys_map_delete length_map)
  also have "\<dots> = length (map fst m) - 1"
    using d h by (simp add: distinct_remove1_removeAll[symmetric] length_remove1 map_has_iff)
  finally show ?thesis using h by (cases m) (auto simp: map_has_iff)
qed

lemma map_delete_hd:
  "distinct (map fst ((k, v) # m)) \<Longrightarrow> map_delete ((k, v) # m) k = m"
  by (simp add: map_delete_def) (metis (mono_tags, lifting) filter_True image_eqI)

section \<open>Facts about the bounded store\<close>

lemma lru_set_present:
  "lru_has c key \<Longrightarrow> cache (lru_set c key v) = map_delete (cache c) key @ [(key, v)]"
  by (simp add: lru_set_def lru_has_def Let_def map_set_fresh map_has_delete)

lemma lru_set_absent_room:
  "\<not> lru_has c key \<Longrightarrow> int (length (cache c)) < maxSize c \<Longrightarrow>
   cache (lru_set c key v) = cache c @ [(key, v)]"
  by (simp add: lru_set_def lru_has_def Let_def map_set_fresh)

lemma lru_set_absent_full:
  assumes "\<not> lru_has c key" and "maxSize c \<le> int (length (cache c))"
    and "distinct (map fst (cache c))"
  shows "cache (lru_set c key v) = tl (cache c) @ [(key, v)]"
proof (cases "cache c")
  case Nil
  with assms show ?thesis by (simp add: lru_set_def lru_has_def Let_def map_set_fresh)
next
  case (Cons p m)
  obtain k0 v0 where p: "p = (k0, v0)" by (cases p)
  have del: "map_delete (cache c) k0 = m"
    using assms(3) Cons p map_delete_hd[of k0 v0 m] by simp
  have "\<not> map_has m key" using assms(1) Cons by (auto simp: lru_has_def map_has_iff)
  with assms Cons p del show ?thesis
    by (simp add: lru_set_def lru_has_def Let_def map_set_fresh)
qed

lemma lru_set_distinct:
  assumes "distinct (map fst (cache c))"
  shows "distinct (map fst (cache (lru_set c key v)))"
proof (cases "lru_has c key")
  case True
  then show ?thesis using assms
    by (simp add: lru_set_present keys_map_delete distinct_removeAll)
next
  case False
  show ?thesis
  proof (cases "maxSize c \<le> int (length (cache c))")
    case True
    have "distinct (map fst (tl (cache c)))" using assms by (simp add: distinct_tl map_tl)
    moreover have "key \<notin> fst ` set (tl (cache c))"
      using False by (cases "cache c") (auto simp: lru_has_def map_has_iff)
    ultimately show ?thesis using False True assms by (simp add: lru_set_absent_full)
  next
    case F2: False
    then show ?thesis using False assms
      by (simp add: lru_set_absent_room lru_has_def map_has_iff)
  qed
qed

lemma lru_set_size:
  assumes "distinct (map fst (cache c))"
  shows "lru_size (lru_set c key v) =
     (if lru_has c key then lru_size c
      else if maxSize c \<le> int (lru_size c) \<and> cache c \<noteq> [] then lru_size c
      else lru_size c + 1)"
proof (cases "lru_has c key")
  case True
  then show ?thesis using assms length_map_delete_present[of "cache c" key]
    by (simp add: lru_set_present lru_size_def lru_has_def)
next
  case False
  show ?thesis
  proof (cases "maxSize c \<le> int (length (cache c))")
    case True
    then show ?thesis using False assms
      by (cases "cache c") (simp_all add: lru_set_absent_full lru_size_def)
  next
    case F2: False
    then show ?thesis using False by (simp add: lru_set_absent_room lru_size_def)
  qed
qed

lemma lru_set_maxSize: "maxSize (lru_set c key v) = maxSize c"
  by (simp add: lru_set_def Let_def)

lemma lru_set_invariant:
  assumes "lru_invariant c" and "1 \<le> maxSize c"
  shows "lru_invariant (lru_set c key v)"
proof -
  have d: "distinct (map fst (cache c))" using assms(1) by (simp add: lru_invariant_def)
  have "int (lru_size (lru_set c key v)) \<le> maxSize c"
    using assms lru_set_size[OF d, of key v]
    by (auto simp: lru_invariant_def lru_size_def split: if_splits)
  then show ?thesis using lru_set_distinct[OF d] by (simp add: lru_invariant_def lru_set_maxSize)
qed

lemma lru_get_hit:
  "map_get (cache c) key \<noteq> JUndefined \<Longrightarrow>
   lru_get c key =
     (map_get (cache c) key, c\<lparr>cache := map_delete (cache c) key @ [(key, map_get (cache c) key)]\<rparr>)"
  by (simp add: lru_get_def Let_def map_set_fresh map_has_delete)

lemma lru_get_miss:
  "map_get (cache c) key = JUndefined \<Longrightarrow> lru_get c key = (JUndefined, c)"
  by (simp add: lru_get_def Let_def)

lemma map_get_defined_has: "map_get m key \<noteq> JUndefined \<Longrightarrow> map_has m key"
  by (auto simp: map_get_def map_has_def split: option.splits)

lemma lru_get_invariant:
  assumes "lru_invariant c"
  shows "lru_invariant (snd (lru_get c key))"
proof (cases "map_get (cache c) key = JUndefined")
  case True
  then show ?thesis using assms by (simp add: lru_get_miss)
next
  case False
  have d: "distinct (map fst (cache c))" using assms by (simp add: lru_invariant_def)
  have "Suc (length (map_delete (cache c) key)) = length (cache c)"
    using d False by (simp add: length_map_delete_present map_get_defined_has)
  then show ?thesis using assms False d
    by (simp add: lru_get_hit lru_invariant_def lru_size_def keys_map_delete distinct_removeAll)
qed

lemma lru_clear_invariant: "0 \<le> maxSize c \<Longrightarrow> lru_invariant (lru_clear c)"
  by (simp add: lru_invariant_def lru_clear_def lru_size_def)

section \<open>The bounded store: capacity, eviction, re-insertion\<close>

text \<open>
  C2. The bound \<open>size \<le> capacity\<close> fails for a store built with capacity 0: the first
  \<open>set\<close> finds the empty store at capacity, has no entry to evict, and inserts the
  new entry all the same. The store then holds one entry, whatever the key and value.
\<close>

theorem capacity_zero_store_exceeds_bound:
  "lru_size (lru_set (LRUCache 0) key v) = 1 \<and>
   maxSize (lru_set (LRUCache 0) key v) = 0 \<and>
   cache (lru_set (LRUCache 0) key v) = [(key, v)]"
  by (simp add: lru_set_def LRUCache_def lru_size_def map_set_def map_has_def)

text \<open>
  For a capacity of at least 1 the bound is kept by every sequence of operations of
  the instrumented cache, and so after each operation of the sequence.
\<close>

lemma apply_op_invariant:
  assumes "lru_invariant c" and "1 \<le> maxSize c"
  shows "lru_invariant (snd (apply_op c x)) \<and> maxSize (snd (apply_op c x)) = maxSize c"
proof (cases x)
  case (Get k)
  have "lru_invariant (snd (lru_get c k))" using assms(1) by (rule lru_get_invariant)
  then show ?thesis
    by (auto simp: Get tracked_get_def lru_get_def Let_def lru_invariant_def lru_size_def
        split: prod.splits if_splits)
next
  case (Set k v)
  then show ?thesis using lru_set_invariant[OF assms] by (simp add: lru_set_maxSize)
next
  case (Has k)
  then show ?thesis using assms by simp
next
  case Clear
  then show ?thesis using assms lru_clear_invariant[of c] by (simp add: lru_clear_def)
next
  case ResetStats
  then show ?thesis using assms by (simp add: resetStats_def lru_invariant_def lru_size_def)
qed

theorem bound_kept_by_every_run:
  "lru_invariant c \<Longrightarrow> 1 \<le> maxSize c \<Longrightarrow> lru_invariant (snd (run_ops c ops))"
proof (induction ops arbitrary: c)
  case Nil
  then show ?case by simp
next
  case (Cons x xs)
  have "lru_invariant (snd (apply_op c x))" and "1 \<le> maxSize (snd (apply_op c x))"
    using apply_op_invariant[OF Cons.prems, of x] Cons.prems(2) by simp_all
  then have "lru_invariant (snd (run_ops (snd (apply_op c x)) xs))" by (rule Cons.IH)
  then show ?case by (simp add: split_beta)
qed

lemmas eval_lru = run_ops.simps apply_op.simps tracked_get_def lru_get_def lru_set_def lru_has_def
  lru_clear_def resetStats_def map_get_def map_set_def map_delete_def map_has_def
  TrackedLRUCache_def LRUCache_def lru_invariant_def lru_size_def Let_def

theorem bound_kept_by_every_run_witness:
  "lru_invariant (TrackedLRUCache 1 :: string tracked_lru_cache) \<and>
   (1 :: int) \<le> maxSize (TrackedLRUCache 1 :: string tracked_lru_cache) \<and>
   lru_invariant (snd (run_ops (TrackedLRUCache 1 :: string tracked_lru_cache)
     [Set ''a'' JNull, Set ''b'' JNull, Get ''b'', Clear])) \<and>
   snd (run_ops (TrackedLRUCache 1 :: string tracked_lru_cache) [Set ''a'' JNull, Set ''b'' JNull]) =
     \<lparr>cache = [(''b'', JNull)], maxSize = 1, hits = 0, misses = 0\<rparr>"
proof -
  let ?c = "TrackedLRUCache 1 :: string tracked_lru_cache"
  have i: "lru_invariant ?c" and m: "1 \<le> maxSize ?c"
    by (simp_all add: lru_invariant_def TrackedLRUCache_def lru_size_def)
  have "snd (run_ops ?c [Set ''a'' JNull, Set ''b'' JNull]) =
     \<lparr>cache = [(''b'', JNull)], maxSize = 1, hits = 0, misses = 0\<rparr>"
    by (simp add: eval_lru)
  then show ?thesis
    using i m bound_kept_by_every_run[OF i m, of "[Set ''a'' JNull, Set ''b'' JNull, Get ''b'', Clear]"]
    by blast
qed

text \<open>
  A new key set on a store that is at its capacity (of at least 1) evicts exactly the
  oldest entry of the recency order, the first of the list, and appends the new entry;
  the size does not change.
\<close>

theorem set_at_capacity_evicts_oldest:
  assumes "lru_invariant c" and "\<not> lru_has c key"
    and "int (lru_size c) = maxSize c" and "1 \<le> maxSize c"
  shows "cache (lru_set c key v) = tl (cache c) @ [(key, v)] \<and>
         lru_size (lru_set c key v) = lru_size c"
proof -
  have d: "distinct (map fst (cache c))" using assms(1) by (simp add: lru_invariant_def)
  have ne: "cache c \<noteq> []" using assms(3,4) by (auto simp: lru_size_def)
  have "cache (lru_set c key v) = tl (cache c) @ [(key, v)]"
    using assms(2,3) d by (simp add: lru_set_absent_full lru_size_def)
  then show ?thesis using ne by (simp add: lru_size_def)
qed

theorem set_at_capacity_evicts_oldest_witness:
  "cache (lru_set \<lparr>cache = [(''a'', JNull), (''b'', JBool True)], maxSize = 2\<rparr> ''c'' JNull) =
     [(''b'', JBool True), (''c'', JNull)]"
proof -
  let ?c = "\<lparr>cache = [(''a'', JNull), (''b'', JBool True)], maxSize = 2\<rparr>"
  have "lru_invariant ?c" and "\<not> lru_has ?c ''c''" and "int (lru_size ?c) = maxSize ?c"
    and "1 \<le> maxSize ?c"
    by (simp_all add: lru_invariant_def lru_size_def lru_has_def map_has_def)
  from set_at_capacity_evicts_oldest[OF this, of JNull] show ?thesis by simp
qed

text \<open>
  Setting a key that is present moves its entry to the most recently used end of the
  order, with the new value, and leaves the size as it was.
\<close>

theorem set_existing_key_promotes:
  assumes "distinct (map fst (cache c))" and "lru_has c key"
  shows "cache (lru_set c key v) = map_delete (cache c) key @ [(key, v)] \<and>
         lru_size (lru_set c key v) = lru_size c"
  using assms lru_set_size[OF assms(1), of key v] by (simp add: lru_set_present)

theorem set_existing_key_promotes_witness:
  "cache (lru_set \<lparr>cache = [(''a'', JNull), (''b'', JBool True)], maxSize = 2\<rparr> ''a'' (JBool False)) =
     [(''b'', JBool True), (''a'', JBool False)]"
proof -
  let ?c = "\<lparr>cache = [(''a'', JNull), (''b'', JBool True)], maxSize = 2\<rparr>"
  have "distinct (map fst (cache ?c))" and "lru_has ?c ''a''"
    by (simp_all add: lru_has_def map_has_def)
  from set_existing_key_promotes[OF this, of "JBool False"] show ?thesis
    by (simp add: map_delete_def)
qed

section \<open>The instrumented cache: counters and hit rate\<close>




section \<open>The double that \<open>hitRate\<close> returns\<close>









text \<open>
  C9. \<open>clearCaches\<close> empties both stores and leaves the four counters as they were;
  \<open>resetStats\<close> zeroes the two counters of a cache and leaves its entries, hence its
  size, as they were; the two commute.
\<close>

theorem clear_and_reset_independent:
  "cache (parseCache (clearCaches st)) = [] \<and>
   cache (stringifyCache (clearCaches st)) = [] \<and>
   hits (parseCache (clearCaches st)) = hits (parseCache st) \<and>
   misses (parseCache (clearCaches st)) = misses (parseCache st) \<and>
   hits (stringifyCache (clearCaches st)) = hits (stringifyCache st) \<and>
   misses (stringifyCache (clearCaches st)) = misses (stringifyCache st) \<and>
   hits (resetStats c) = 0 \<and> misses (resetStats c) = 0 \<and>
   cache (resetStats c) = cache c \<and> lru_size (resetStats c) = lru_size c \<and>
   resetStats (lru_clear c) = lru_clear (resetStats c)"
  by (simp add: clearCaches_def lru_clear_def resetStats_def lru_size_def)

text \<open>
  C10. When the value stored under a key is \<open>undefined\<close>, \<open>get\<close> returns
  \<open>undefined\<close> and leaves the store as it is (no promotion), the instrumented \<open>get\<close>
  counts a miss and changes nothing else, \<open>has\<close> is true, the entry is one of those
  \<open>size\<close> counts, and \<open>get\<close> returns what it returns on the store without that entry.
\<close>

theorem undefined_entry_reads_as_absent:
  assumes "map_of (cache c) key = Some JUndefined" and "distinct (map fst (cache c))"
  shows "lru_get c key = (JUndefined, c) \<and>
         tracked_get c key = (JUndefined, c\<lparr>misses := misses c + 1\<rparr>) \<and>
         lru_has c key \<and>
         lru_size c = Suc (length (map_delete (cache c) key)) \<and>
         \<not> lru_has (c\<lparr>cache := map_delete (cache c) key\<rparr>) key \<and>
         fst (lru_get (c\<lparr>cache := map_delete (cache c) key\<rparr>) key) = fst (lru_get c key)"
proof -
  have g: "map_get (cache c) key = JUndefined" using assms(1) by (simp add: map_get_def)
  have get: "lru_get c key = (JUndefined, c)" using g by (simp add: lru_get_miss)
  have tr: "tracked_get c key = (JUndefined, c\<lparr>misses := misses c + 1\<rparr>)"
    by (simp add: tracked_get_def get)
  have has: "lru_has c key" using assms(1) by (simp add: lru_has_def map_has_def)
  have sz: "lru_size c = Suc (length (map_delete (cache c) key))"
    using length_map_delete_present[OF assms(2)] has by (simp add: lru_size_def lru_has_def)
  have nh: "\<not> lru_has (c\<lparr>cache := map_delete (cache c) key\<rparr>) key"
    by (simp add: lru_has_def map_has_delete)
  have "map_get (map_delete (cache c) key) key = JUndefined"
    by (simp add: map_get_def map_of_delete)
  then have "fst (lru_get (c\<lparr>cache := map_delete (cache c) key\<rparr>) key) = fst (lru_get c key)"
    using g by (simp add: get lru_get_def Let_def)
  with get tr has sz nh show ?thesis by blast
qed

theorem undefined_entry_reads_as_absent_witness:
  "lru_set (TrackedLRUCache 2) ''k'' JUndefined =
     \<lparr>cache = [(''k'', JUndefined)], maxSize = 2, hits = 0, misses = 0\<rparr> \<and>
   tracked_get \<lparr>cache = [(''k'', JUndefined)], maxSize = 2, hits = 0, misses = 0\<rparr> ''k'' =
     (JUndefined, \<lparr>cache = [(''k'', JUndefined)], maxSize = 2, hits = 0, misses = 1\<rparr>) \<and>
   lru_has \<lparr>cache = [(''k'', JUndefined)], maxSize = 2, hits = 0, misses = 0\<rparr> ''k'' \<and>
   lru_size \<lparr>cache = [(''k'', JUndefined)], maxSize = 2, hits = 0, misses = 0\<rparr> = 1"
proof -
  let ?c = "\<lparr>cache = [(''k'', JUndefined)], maxSize = 2, hits = 0, misses = (0::nat)\<rparr>"
  have a: "map_of (cache ?c) ''k'' = Some JUndefined" and d: "distinct (map fst (cache ?c))"
    by simp_all
  have s: "lru_set (TrackedLRUCache 2) ''k'' JUndefined = ?c"
    by (simp add: eval_lru)
  show ?thesis using undefined_entry_reads_as_absent[OF a d] s by (simp add: map_delete_def)
qed

section \<open>Facts about the instrumented \<open>get\<close> and \<open>set\<close>\<close>

lemma tracked_get_fst: "fst (tracked_get c k) = map_get (cache c) k"
  by (simp add: tracked_get_def lru_get_def Let_def)

lemma tracked_get_total:
  "hits (snd (tracked_get c k)) + misses (snd (tracked_get c k)) = hits c + misses c + 1"
  by (simp add: tracked_get_def lru_get_def Let_def)

lemma tracked_get_keeps_value:
  "map_get (cache (snd (tracked_get c k))) k = map_get (cache c) k"
  by (simp add: tracked_get_def lru_get_def Let_def map_get_set)

lemma lru_set_get: "map_get (cache (lru_set c k v)) k = v"
  by (simp add: lru_set_def Let_def map_get_set)

lemma lru_set_total: "hits (lru_set c k v) + misses (lru_set c k v) = hits c + misses c"
  by (simp add: lru_set_def Let_def)

lemma canCache_allow_listed: "canCache v = allow_listed v"
  by (cases v rule: allow_listed.cases) (simp_all add: canCache_def)

lemma effective_replacer_none: "effective_replacer r = NoReplacer \<longleftrightarrow> \<not> supplies_replacer r"
  by (cases r) (simp_all add: effective_replacer_def)

lemma tracked_get_hit:
  "map_get (cache c) k \<noteq> JUndefined \<Longrightarrow>
   tracked_get c k =
     (map_get (cache c) k,
      c\<lparr>cache := map_set (map_delete (cache c) k) k (map_get (cache c) k), hits := hits c + 1\<rparr>)"
  by (simp add: tracked_get_def lru_get_def Let_def)

lemma tracked_get_miss:
  "map_get (cache c) k = JUndefined \<Longrightarrow> tracked_get c k = (JUndefined, c\<lparr>misses := misses c + 1\<rparr>)"
  by (simp add: tracked_get_def lru_get_def Let_def)

lemmas eval_key =
  parse_cacheKey_def stringify_cacheKey_def options_json_def js_string_of_def json_quote_def
  json_escape_def unicode_escape_def is_leading_surrogate_def is_trailing_surrogate_def
  json_number_def number_to_string_def int_to_radix_def nat_to_radix.simps digit_char_def
  hashString_def hash_step_def engine_yielding_def js_def Let_def

section \<open>Calls that bypass the caches\<close>

text \<open>
  A \<open>parse\<close> call whose second argument is a reviver function leaves \<open>parseCache\<close>
  (entries, order, counters) and \<open>stringifyCache\<close> as they were, and what it returns or
  throws is the same whatever the caches hold. A \<open>stringify\<close> call with a replacer
  function or array leaves the whole state as it was, and its result is the same
  whatever the caches hold.
\<close>

theorem reviver_and_replacer_bypass_cache:
  "snd (stringify E st input (ReplacerFunction f) options) = st \<and>
   snd (stringify E st input (ReplacerArray xs) options) = st \<and>
   fst (stringify E st input (ReplacerFunction f) options) =
     fst (stringify E st' input (ReplacerFunction f) options) \<and>
   fst (stringify E st input (ReplacerArray xs) options) =
     fst (stringify E st' input (ReplacerArray xs) options) \<and>
   parseCache (snd (parse E st src (Reviver f) popts)) = parseCache st \<and>
   stringifyCache (snd (parse E st src (Reviver f) popts)) = stringifyCache st \<and>
   fst (parse E st src (Reviver f) popts) = fst (parse E st' src (Reviver f) popts)"
proof -
  have s1: "stringify E s input (ReplacerFunction f) options =
      (fst (stringify E st' input (ReplacerFunction f) options), s)" for s
    by (simp add: stringify_def effective_replacer_def Let_def split: js_input.splits)
  have s2: "stringify E s input (ReplacerArray xs) options =
      (fst (stringify E st' input (ReplacerArray xs) options), s)" for s
    by (simp add: stringify_def effective_replacer_def Let_def split: js_input.splits)
  have p1: "parseCache (snd (parse E s src (Reviver f) popts)) = parseCache s \<and>
      stringifyCache (snd (parse E s src (Reviver f) popts)) = stringifyCache s \<and>
      fst (parse E s src (Reviver f) popts) = fst (parse E st' src (Reviver f) popts)" for s
    by (simp add: parse_def parse_options_def Let_def split: sum.splits option.splits)
  show ?thesis using s1[of st] s2[of st] p1[of st] by simp
qed

section \<open>The cacheability of \<open>stringify\<close>\<close>

text \<open>
  C6. When no replacer function or array is supplied, the value is not a document and
  the value is on the allow-list, the call looks up in \<open>stringifyCache\<close> the key made of
  the value and the normalised options. If the store holds a value other than
  \<open>undefined\<close> under that key, the call returns it, counts a hit and makes the entry
  the most recent one; the engine is not asked. Otherwise the call counts a miss and
  asks the engine: what the engine throws is thrown and nothing is stored, and the text
  the engine returns is returned and stored under the key. Nothing else of the state
  changes. In every other case the call leaves the state as it was, and its result is
  the same whatever the caches hold.
\<close>

theorem stringify_cacheability:
  "(stringify_cacheable replacer input \<longrightarrow>
      (case input of
         DocumentValue d \<Rightarrow> False
       | PlainValue v \<Rightarrow>
           (let opts = options_object (effective_options replacer options);
                key = stringify_cacheKey E v opts;
                c = stringifyCache st;
                cached = map_get (cache c) key
            in if cached \<noteq> JUndefined then
                 stringify E st input replacer options =
                   (Inr cached,
                    st\<lparr>stringifyCache :=
                         c\<lparr>cache := map_set (map_delete (cache c) key) key cached,
                           hits := hits c + 1\<rparr>\<rparr>)
               else
                 (case newDocumentToString E (PlainValue v) NoReplacer opts of
                    Inl t \<Rightarrow>
                      stringify E st input replacer options =
                        (Inl t, st\<lparr>stringifyCache := c\<lparr>misses := misses c + 1\<rparr>\<rparr>)
                  | Inr text \<Rightarrow>
                      stringify E st input replacer options =
                        (Inr (JString text),
                         st\<lparr>stringifyCache :=
                              lru_set (c\<lparr>misses := misses c + 1\<rparr>) key (JString text)\<rparr>))))) \<and>
   (\<not> stringify_cacheable replacer input \<longrightarrow>
      snd (stringify E st input replacer options) = st \<and>
      fst (stringify E st input replacer options) = fst (stringify E st' input replacer options))"
proof (cases "stringify_cacheable replacer input")
  case True
  then obtain v where v: "input = PlainValue v" and al: "allow_listed v"
    and nr: "effective_replacer replacer = NoReplacer"
    by (auto simp: stringify_cacheable_def effective_replacer_none split: js_input.splits)
  have nu: "v \<noteq> JUndefined" using al by auto
  let ?opts = "options_object (effective_options replacer options)"
  let ?key = "stringify_cacheKey E v ?opts"
  let ?c = "stringifyCache st"
  show ?thesis
  proof (cases "map_get (cache ?c) ?key = JUndefined")
    case miss: True
    show ?thesis using True miss
      by (simp add: stringify_def Let_def v nr nu canCache_allow_listed al
          tracked_get_miss[OF miss] split: sum.splits)
  next
    case hit: False
    show ?thesis using True hit
      by (simp add: stringify_def Let_def v nr nu canCache_allow_listed al
          tracked_get_hit[OF hit])
  qed
next
  case False
  have "stringify E s input replacer options = (fst (stringify E st' input replacer options), s)" for s
  proof (cases "effective_replacer replacer = NoReplacer")
    case nr: True
    then have "\<not> supplies_replacer replacer" by (simp add: effective_replacer_none)
    with False show ?thesis
      by (auto simp: stringify_def Let_def nr stringify_cacheable_def canCache_allow_listed
          split: js_input.splits)
  next
    case r: False
    then show ?thesis
      by (cases "effective_replacer replacer")
        (auto simp: stringify_def Let_def split: js_input.splits)
  qed
  from this[of st] False show ?thesis by simp
qed

theorem stringify_cacheability_witness:
  "stringify_cacheable NoReplacer (PlainValue (JString (js ''a'')) :: unit js_input) \<and>
   stringify (engine_yielding []) initial_state (PlainValue (JString (js ''a''))) NoReplacer NoOptions =
     (Inr (JString (js [CHR ''a'', CHR 0x0A])),
      initial_state\<lparr>stringifyCache :=
        \<lparr>cache = [(js ''kfq5h'', JString (js [CHR ''a'', CHR 0x0A]))], maxSize = 2000,
         hits = 0, misses = 1\<rparr>\<rparr>) \<and>
   stringify (engine_yielding [])
     (initial_state\<lparr>stringifyCache :=
        \<lparr>cache = [(js ''kfq5h'', JString (js ''b''))], maxSize = 2000, hits = 0, misses = 1\<rparr>\<rparr>)
     (PlainValue (JString (js ''a''))) NoReplacer NoOptions =
     (Inr (JString (js ''b'')),
      initial_state\<lparr>stringifyCache :=
        \<lparr>cache = [(js ''kfq5h'', JString (js ''b''))], maxSize = 2000, hits = 1, misses = 1\<rparr>\<rparr>) \<and>
   \<not> stringify_cacheable NoReplacer (PlainValue (JArray []) :: unit js_input) \<and>
   snd (stringify (engine_yielding []) initial_state (PlainValue (JArray [])) NoReplacer NoOptions) =
     initial_state"
proof -
  let ?E = "engine_yielding []"
  let ?a = "PlainValue (JString (js ''a'')) :: unit js_input"
  let ?st = "initial_state\<lparr>stringifyCache :=
        \<lparr>cache = [(js ''kfq5h'', JString (js ''b''))], maxSize = 2000, hits = 0, misses = 1\<rparr>\<rparr>"
  have a: "stringify_cacheable NoReplacer ?a"
    and b: "\<not> stringify_cacheable NoReplacer (PlainValue (JArray []) :: unit js_input)"
    by (simp_all add: stringify_cacheable_def)
  have o: "options_object (effective_options NoReplacer NoOptions) = None"
    by (simp add: options_object_def effective_options_def normalize_options_def)
  have k: "stringify_cacheKey ?E (JString (js ''a'')) None = js ''kfq5h''"
    by (simp add: eval_key)
  have n: "newDocumentToString ?E ?a NoReplacer None = Inr (js [CHR ''a'', CHR 0x0A])"
    by (simp add: engine_yielding_def)
  have m1: "map_get (cache (stringifyCache initial_state)) (js ''kfq5h'') = JUndefined"
    by (simp add: initial_state_def TrackedLRUCache_def map_get_def)
  have m2: "map_get (cache (stringifyCache ?st)) (js ''kfq5h'') = JString (js ''b'')"
    by (simp add: map_get_def)
  have first: "stringify ?E initial_state ?a NoReplacer NoOptions =
     (Inr (JString (js [CHR ''a'', CHR 0x0A])),
      initial_state\<lparr>stringifyCache :=
        \<lparr>cache = [(js ''kfq5h'', JString (js [CHR ''a'', CHR 0x0A]))], maxSize = 2000,
         hits = 0, misses = 1\<rparr>\<rparr>)"
    using a stringify_cacheability[of NoReplacer ?a NoOptions ?E initial_state initial_state]
    by (simp add: o k n m1 Let_def)
      (simp add: initial_state_def TrackedLRUCache_def lru_set_def map_set_def map_has_def)
  have second: "stringify ?E ?st ?a NoReplacer NoOptions =
     (Inr (JString (js ''b'')),
      initial_state\<lparr>stringifyCache :=
        \<lparr>cache = [(js ''kfq5h'', JString (js ''b''))], maxSize = 2000, hits = 1, misses = 1\<rparr>\<rparr>)"
    using a stringify_cacheability[of NoReplacer ?a NoOptions ?E ?st initial_state]
    by (simp add: o k n Let_def map_get_def)
      (simp add: map_set_def map_has_def map_delete_def)
  have third: "snd (stringify ?E initial_state (PlainValue (JArray [])) NoReplacer NoOptions) =
     initial_state"
    using b stringify_cacheability[of NoReplacer "PlainValue (JArray [])" NoOptions ?E
        initial_state initial_state]
    by simp
  show ?thesis using a b first second third by simp
qed

section \<open>The legacy forms of the options argument\<close>

lemma effective_options_number:
  "effective_options replacer (NumberOptions n) = normalize_options (NumberOptions n)"
  by (simp add: effective_options_def split: replacer_arg.splits)

lemma effective_options_string:
  "effective_options replacer (StringOptions s) = normalize_options (StringOptions s)"
  by (simp add: effective_options_def split: replacer_arg.splits)

lemma normalize_finite:
  "normalize_options (NumberOptions (Fin r)) =
     (if r < 1 / 2 then NoOptions
      else ObjectOptions [(js ''indent'', JNumber (Fin (of_int (max 1 (min 8 \<lfloor>r + 1 / 2\<rfloor>)))))])"
proof -
  define k where "k = \<lfloor>r + 1 / 2\<rfloor>"
  have n: "normalize_options (NumberOptions (Fin r)) =
     (let indent = (if - (1 / 2) \<le> r \<and> r < 0 then NegZero else Fin (of_int k)) in
      if js_less indent (Fin 1) then NoOptions
      else if js_greater indent (Fin 8) then ObjectOptions [(js ''indent'', JNumber (Fin 8))]
      else ObjectOptions [(js ''indent'', JNumber indent)])"
    by (simp add: normalize_options_def k_def)
  show ?thesis
  proof (cases "r < 1 / 2")
    case True
    then have "k < 1" unfolding k_def by (simp add: floor_less_iff)
    then have "(of_int k :: rat) < 1" by simp
    with True show ?thesis unfolding n by (simp add: Let_def)
  next
    case False
    then have k1: "1 \<le> k" unfolding k_def by (simp add: le_floor_iff)
    then have "\<not> (of_int k :: rat) < 1" by simp
    moreover have "js_greater (Fin (of_int k)) (Fin 8) = (8 < k)"
      by (simp add: js_greater_def)
    ultimately show ?thesis using False k1 unfolding n k_def[symmetric]
      by (auto simp: Let_def min_def max_def)
  qed
qed

text \<open>
  C8, as the code has it. A bare string is read as the bare number that is its length.
  A bare number other than NaN is rounded to the nearest integer (ties upwards); a
  rounded value below 1, which is the case of the numbers below one half, of \<open>-0\<close> and of
  \<open>-\<infinity>\<close>, gives no options at all; any other gives \<open>{indent: k}\<close> with \<open>k\<close> the rounded
  value, at most 8, so that \<open>1 \<le> k \<le> 8\<close>.
\<close>

theorem options_normalisation:
  "effective_options replacer (StringOptions s) =
     effective_options replacer (NumberOptions (Fin (of_nat (length s)))) \<and>
   effective_options replacer (NumberOptions (Fin r)) =
     (if r < 1 / 2 then NoOptions
      else ObjectOptions [(js ''indent'', JNumber (Fin (of_int (max 1 (min 8 \<lfloor>r + 1 / 2\<rfloor>)))))]) \<and>
   1 \<le> max 1 (min 8 \<lfloor>r + 1 / 2\<rfloor>) \<and> max 1 (min 8 \<lfloor>r + 1 / 2\<rfloor>) \<le> 8 \<and>
   effective_options replacer (NumberOptions NegZero) = NoOptions \<and>
   effective_options replacer (NumberOptions NegInf) = NoOptions \<and>
   effective_options replacer (NumberOptions PosInf) = ObjectOptions [(js ''indent'', JNumber (Fin 8))]"
proof -
  have "normalize_options (StringOptions s) = normalize_options (NumberOptions (Fin (of_nat (length s))))"
    by (simp add: normalize_options_def)
  moreover have "normalize_options (NumberOptions NegZero) = NoOptions"
    and "normalize_options (NumberOptions NegInf) = NoOptions"
    and "normalize_options (NumberOptions PosInf) = ObjectOptions [(js ''indent'', JNumber (Fin 8))]"
    by (simp_all add: normalize_options_def js_greater_def)
  ultimately show ?thesis
    by (simp add: effective_options_number effective_options_string normalize_finite)
qed

text \<open>
  C8 as stated fails at one half: the number is below 1, and the options become
  \<open>{indent: 1}\<close> instead of no options.
\<close>

theorem half_is_given_indent_one:
  "js_less (Fin (1 / 2)) (Fin 1) \<and>
   effective_options NoReplacer (NumberOptions (Fin (1 / 2))) \<noteq> NoOptions \<and>
   effective_options NoReplacer (NumberOptions (Fin (1 / 2))) =
     ObjectOptions [(js ''indent'', JNumber (Fin 1))]"
  by (simp add: effective_options_def normalize_options_def js_greater_def)

text \<open>NaN is neither below 1 nor above 8: it is passed on as the indent.\<close>

lemma nan_is_passed_on:
  "effective_options replacer (NumberOptions NaN) = ObjectOptions [(js ''indent'', JNumber NaN)]"
  by (simp add: effective_options_number normalize_options_def js_greater_def)

section \<open>The multi-document guard\<close>

lemma parseOptions_truthy: "parseOptions ps = (lc, True) \<Longrightarrow> truthy lc"
  by (auto simp: parseOptions_def Let_def new_LineCounter_def split: if_splits)

lemma loop_silent:
  "logLevel d = js ''silent'' \<Longrightarrow> parseDocument_loop (Some d) ds = (Some d, [])"
  by (induction ds) simp_all

lemma parseDocument_of_loop:
  assumes "parseOptions (case opts of None \<Rightarrow> [] | Some ps \<Rightarrow> ps) = (lineCounter, prettyErrors)"
    and "parseDocument_loop None
           (compose E source lineCounter (case opts of None \<Rightarrow> [] | Some ps \<Rightarrow> ps)) = (Some d, rest)"
  shows "parseDocument E source opts =
     Inr (Some (if prettyErrors
                then d\<lparr>errors := map (prettifyError E source lineCounter) (errors d),
                       warnings := map (prettifyError E source lineCounter) (warnings d)\<rparr>
                else d))"
proof (cases prettyErrors)
  case True
  then have "truthy lineCounter" using assms(1) by (simp add: parseOptions_truthy)
  then show ?thesis using True assms by (simp add: parseDocument_def Let_def)
next
  case False
  then show ?thesis using assms by (simp add: parseDocument_def Let_def)
qed

lemma reviver_none: "\<not> is_reviver r \<Longrightarrow> (case r of Reviver f \<Rightarrow> Some f | _ \<Rightarrow> None) = None"
  by (cases r) simp_all

lemma reviver_some: "is_reviver r \<Longrightarrow> (case r of Reviver f \<Rightarrow> Some f | _ \<Rightarrow> None) \<noteq> None"
  by (cases r) simp_all

text \<open>
  A \<open>parse\<close> call that does not answer from the cache (a reviver function is its second
  argument, or the store holds nothing but \<open>undefined\<close> under its key) throws the first
  error of a document that has errors and is not silent.
\<close>

lemma parse_throws_first_error:
  assumes "parseDocument E src (parse_options r popts) = Inr (Some d)"
    and "errors d \<noteq> []" and "logLevel d \<noteq> js ''silent''"
    and "is_reviver r \<or>
         map_get (cache (parseCache st)) (parse_cacheKey E src None (parse_options r popts)) = JUndefined"
  shows "fst (parse E st src r popts) = Inl (YAMLParseError (hd (errors d)))"
proof (cases "is_reviver r")
  case True
  then show ?thesis using assms(1-3)
    by (cases r) (simp_all add: parse_def Let_def)
next
  case False
  with assms(4) have m: "map_get (cache (parseCache st))
      (parse_cacheKey E src None (parse_options r popts)) = JUndefined" by simp
  show ?thesis using assms(1-3)
    by (simp add: parse_def Let_def reviver_none[OF False] tracked_get_miss[OF m])
qed

text \<open>A \<open>parse\<close> call without a reviver answers from the cache when it can.\<close>

lemma parse_answers_from_cache:
  assumes "\<not> is_reviver r"
    and "map_get (cache (parseCache st)) (parse_cacheKey E src None (parse_options r popts)) = v"
    and "v \<noteq> JUndefined"
  shows "parse E st src r popts =
     (Inr v,
      st\<lparr>parseCache :=
           (parseCache st)\<lparr>cache :=
              map_set (map_delete (cache (parseCache st))
                (parse_cacheKey E src None (parse_options r popts)))
                (parse_cacheKey E src None (parse_options r popts)) v,
            hits := hits (parseCache st) + 1\<rparr>\<rparr>)"
proof -
  have h: "map_get (cache (parseCache st)) (parse_cacheKey E src None (parse_options r popts))
      \<noteq> JUndefined"
    using assms(2,3) by simp
  show ?thesis using assms(2,3)
    by (simp add: parse_def Let_def reviver_none[OF assms(1)] tracked_get_hit[OF h])
qed

text \<open>
  C5, as the code has it. Let the composer yield at least two documents. When the log
  level of the first is not \<open>silent\<close>, the loop appends exactly one \<open>MULTIPLE_DOCS\<close>
  error to the errors of the first document, positioned at the first two offsets of
  the range of the second, and stops there: the documents after the second are not
  asked for. \<open>parseDocument\<close> returns that document (its errors and warnings
  pretty-printed when \<open>prettyErrors\<close> is on). A \<open>parse\<close> call with these options that
  does not answer from the cache (its second argument is a reviver function, or the
  store holds nothing but \<open>undefined\<close> under its key) throws the first error of the
  list, as it does for the engine's errors; a call without a reviver that finds a value
  under its key returns that value and throws nothing. When the log level of the first
  document is \<open>silent\<close>, no error is attached, every document is consumed, and the first
  is returned.
\<close>

theorem multiple_documents_guard:
  assumes "parseOptions (case opts of None \<Rightarrow> [] | Some ps \<Rightarrow> ps) = (lineCounter, prettyErrors)"
    and "compose E source lineCounter (case opts of None \<Rightarrow> [] | Some ps \<Rightarrow> ps) = d1 # d2 # ds"
  shows "(logLevel d1 \<noteq> js ''silent'' \<longrightarrow>
            parseDocument_loop None (d1 # d2 # ds) =
              (Some (d1\<lparr>errors := errors d1 @ [multiple_docs_error d2]\<rparr>), ds) \<and>
            err_code (multiple_docs_error d2) = js ''MULTIPLE_DOCS'' \<and>
            err_pos (multiple_docs_error d2) = (fst (doc_range d2), fst (snd (doc_range d2))) \<and>
            parseDocument E source opts =
              Inr (Some (if prettyErrors
                 then d1\<lparr>errors := map (prettifyError E source lineCounter)
                                      (errors d1 @ [multiple_docs_error d2]),
                         warnings := map (prettifyError E source lineCounter) (warnings d1)\<rparr>
                 else d1\<lparr>errors := errors d1 @ [multiple_docs_error d2]\<rparr>)) \<and>
            (parse_options r popts = opts \<and>
             (is_reviver r \<or>
              map_get (cache (parseCache st)) (parse_cacheKey E source None opts) = JUndefined) \<longrightarrow>
               fst (parse E st source r popts) =
                 Inl (YAMLParseError (hd (if prettyErrors
                    then map (prettifyError E source lineCounter) (errors d1 @ [multiple_docs_error d2])
                    else errors d1 @ [multiple_docs_error d2])))) \<and>
            (parse_options r popts = opts \<and> \<not> is_reviver r \<and>
             map_get (cache (parseCache st)) (parse_cacheKey E source None opts) \<noteq> JUndefined \<longrightarrow>
               fst (parse E st source r popts) =
                 Inr (map_get (cache (parseCache st)) (parse_cacheKey E source None opts)))) \<and>
         (logLevel d1 = js ''silent'' \<longrightarrow>
            parseDocument_loop None (d1 # d2 # ds) = (Some d1, []) \<and>
            parseDocument E source opts =
              Inr (Some (if prettyErrors
                 then d1\<lparr>errors := map (prettifyError E source lineCounter) (errors d1),
                         warnings := map (prettifyError E source lineCounter) (warnings d1)\<rparr>
                 else d1)))"
proof (cases "logLevel d1 = js ''silent''")
  case True
  have l: "parseDocument_loop None (d1 # d2 # ds) = (Some d1, [])"
    using True by (simp add: loop_silent)
  have "parseDocument E source opts =
      Inr (Some (if prettyErrors
         then d1\<lparr>errors := map (prettifyError E source lineCounter) (errors d1),
                 warnings := map (prettifyError E source lineCounter) (warnings d1)\<rparr>
         else d1))"
    using parseDocument_of_loop[OF assms(1), of E source d1 "[]"] l assms(2) by simp
  with True l show ?thesis by simp
next
  case False
  let ?d = "d1\<lparr>errors := errors d1 @ [multiple_docs_error d2]\<rparr>"
  let ?p = "if prettyErrors
         then d1\<lparr>errors := map (prettifyError E source lineCounter)
                              (errors d1 @ [multiple_docs_error d2]),
                 warnings := map (prettifyError E source lineCounter) (warnings d1)\<rparr>
         else d1\<lparr>errors := errors d1 @ [multiple_docs_error d2]\<rparr>"
  have l: "parseDocument_loop None (d1 # d2 # ds) = (Some ?d, ds)"
    using False by simp
  have pos: "err_pos (multiple_docs_error d2) = (fst (doc_range d2), fst (snd (doc_range d2)))"
    by (simp add: multiple_docs_error_def split_beta)
  have code: "err_code (multiple_docs_error d2) = js ''MULTIPLE_DOCS''"
    by (simp add: multiple_docs_error_def)
  have pd: "parseDocument E source opts = Inr (Some ?p)"
    using parseDocument_of_loop[OF assms(1), of E source ?d ds] l assms(2) by simp
  have e: "errors ?p \<noteq> []" and s: "logLevel ?p \<noteq> js ''silent''"
    and h: "hd (errors ?p) = hd (if prettyErrors
         then map (prettifyError E source lineCounter) (errors d1 @ [multiple_docs_error d2])
         else errors d1 @ [multiple_docs_error d2])"
    using False by simp_all
  have thr: "fst (parse E st source r popts) =
      Inl (YAMLParseError (hd (if prettyErrors
         then map (prettifyError E source lineCounter) (errors d1 @ [multiple_docs_error d2])
         else errors d1 @ [multiple_docs_error d2])))"
    if "parse_options r popts = opts"
      and "is_reviver r \<or>
        map_get (cache (parseCache st)) (parse_cacheKey E source None opts) = JUndefined"
  proof -
    have "fst (parse E st source r popts) = Inl (YAMLParseError (hd (errors ?p)))"
    proof (rule parse_throws_first_error)
      show "parseDocument E source (parse_options r popts) = Inr (Some ?p)"
        using pd that(1) by simp
      show "errors ?p \<noteq> []" by (rule e)
      show "logLevel ?p \<noteq> js ''silent''" by (rule s)
      show "is_reviver r \<or> map_get (cache (parseCache st))
          (parse_cacheKey E source None (parse_options r popts)) = JUndefined"
        using that by simp
    qed
    then show ?thesis by (simp only: h)
  qed
  have hit: "fst (parse E st source r popts) =
      Inr (map_get (cache (parseCache st)) (parse_cacheKey E source None opts))"
    if "parse_options r popts = opts" and "\<not> is_reviver r"
      and "map_get (cache (parseCache st)) (parse_cacheKey E source None opts) \<noteq> JUndefined"
    using parse_answers_from_cache[OF that(2), of st E source popts
        "map_get (cache (parseCache st)) (parse_cacheKey E source None opts)"] that(1,3)
    by simp
  from False l pos code pd thr hit show ?thesis by blast
qed

lemmas eval_parse = engine_yielding_def sample_doc_def parseOptions_def map_get_def
  new_LineCounter_def multiple_docs_error_def two_docs_source_def Let_def

theorem multiple_documents_guard_witness:
  "parseDocument
     (engine_yielding [sample_doc (js ''warn'') [] (4, 10, 11), sample_doc (js ''warn'') [] (15, 21, 22)])
     two_docs_source None =
   Inr (Some (sample_doc (js ''warn'')
     [\<lparr>err_pos = (15, 21), err_code = js ''MULTIPLE_DOCS'',
       err_message = js ''Source contains multiple documents; please use YAML.parseAllDocuments()''\<rparr>]
     (4, 10, 11))) \<and>
   fst (parse
     (engine_yielding [sample_doc (js ''warn'') [] (4, 10, 11), sample_doc (js ''warn'') [] (15, 21, 22)])
     initial_state two_docs_source NoReviver None) =
   Inl (YAMLParseError
     \<lparr>err_pos = (15, 21), err_code = js ''MULTIPLE_DOCS'',
      err_message = js ''Source contains multiple documents; please use YAML.parseAllDocuments()''\<rparr>)"
proof -
  let ?d1 = "sample_doc (js ''warn'') [] (4, 10, 11)"
  let ?d2 = "sample_doc (js ''warn'') [] (15, 21, 22)"
  let ?E = "engine_yielding [?d1, ?d2]"
  have a: "parseOptions (case None of None \<Rightarrow> [] | Some ps \<Rightarrow> ps) = (new_LineCounter, True)"
    by (simp add: parseOptions_def map_get_def)
  have b: "compose ?E two_docs_source new_LineCounter (case None of None \<Rightarrow> [] | Some ps \<Rightarrow> ps) =
      [?d1, ?d2]"
    by (simp add: engine_yielding_def)
  have c: "logLevel ?d1 \<noteq> js ''silent''" by (simp add: sample_doc_def)
  have d: "parse_options NoReviver None = None" by (simp add: parse_options_def)
  have e: "map_get (cache (parseCache initial_state)) k = JUndefined" for k :: jsstring
    by (simp add: initial_state_def TrackedLRUCache_def map_get_def)
  show ?thesis
    using multiple_documents_guard[OF a b, of NoReviver None initial_state] c d e
    by (simp add: eval_parse)
qed

text \<open>
  C5 as stated fails under the \<open>silent\<close> log level: with three documents in the stream
  the result is the first document with no error attached, and the loop has consumed
  all three.
\<close>

theorem silent_log_level_attaches_no_error:
  "parseDocument
     (engine_yielding [sample_doc (js ''silent'') [] (4, 10, 11), sample_doc (js ''silent'') [] (15, 21, 22),
        sample_doc (js ''silent'') [] (26, 32, 33)])
     two_docs_source None = Inr (Some (sample_doc (js ''silent'') [] (4, 10, 11))) \<and>
   parseDocument_loop None
     [sample_doc (js ''silent'') [] (4, 10, 11), sample_doc (js ''silent'') [] (15, 21, 22),
      sample_doc (js ''silent'') [] (26, 32, 33)] = (Some (sample_doc (js ''silent'') [] (4, 10, 11)), [])"
  by (simp add: parseDocument_def eval_parse)

section \<open>Repeating a \<open>parse\<close> call\<close>

lemma tracked_get_hit_counters:
  "map_get (cache c) k \<noteq> JUndefined \<Longrightarrow>
   hits (snd (tracked_get c k)) = hits c + 1 \<and> misses (snd (tracked_get c k)) = misses c"
  by (simp add: tracked_get_def lru_get_def Let_def)

lemma parse_result_cached:
  assumes "\<not> is_reviver r" and "parse E st src r opts = (Inr v, st1)"
  shows "map_get (cache (parseCache st1)) (parse_cacheKey E src None (parse_options r opts)) = v"
  using assms(2)
  by (simp add: parse_def Let_def split_beta reviver_none[OF assms(1)] tracked_get_fst
      tracked_get_keeps_value lru_set_get split: sum.splits option.splits if_splits)
    (auto simp: tracked_get_fst tracked_get_keeps_value lru_set_get)

text \<open>
  A call without a reviver that throws found nothing under its key: it has counted a
  miss, and has changed nothing else of \<open>parseCache\<close> and nothing of \<open>stringifyCache\<close>.
\<close>

lemma parse_throw_state:
  assumes "\<not> is_reviver r" and "parse E st src r opts = (Inl t, st1)"
  shows "map_get (cache (parseCache st)) (parse_cacheKey E src None (parse_options r opts)) = JUndefined \<and>
         parseCache st1 = (parseCache st)\<lparr>misses := misses (parseCache st) + 1\<rparr> \<and>
         stringifyCache st1 = stringifyCache st"
proof (cases "map_get (cache (parseCache st)) (parse_cacheKey E src None (parse_options r opts)) = JUndefined")
  case True
  show ?thesis using assms(2) True
    by (auto simp: parse_def Let_def reviver_none[OF assms(1)] tracked_get_miss[OF True]
        split: sum.splits option.splits if_splits)
next
  case False
  show ?thesis using assms(2) False
    by (simp add: parse_def Let_def reviver_none[OF assms(1)] tracked_get_hit[OF False])
qed

text \<open>
  What a call that finds nothing under its key returns or throws does not depend on the
  rest of the state.
\<close>

lemma parse_miss_result:
  assumes "\<not> is_reviver r"
    and "map_get (cache (parseCache st)) (parse_cacheKey E src None (parse_options r opts)) = JUndefined"
    and "map_get (cache (parseCache st')) (parse_cacheKey E src None (parse_options r opts)) = JUndefined"
  shows "fst (parse E st src r opts) = fst (parse E st' src r opts)"
  by (simp add: parse_def Let_def reviver_none[OF assms(1)] tracked_get_miss[OF assms(2)]
      tracked_get_miss[OF assms(3)] split: sum.splits option.splits)

text \<open>
  C1, as the code has it. When a \<open>parse\<close> call without a reviver returns a value other
  than \<open>undefined\<close>, the same call made next returns the same value, adds one to the
  hits of \<open>parseCache\<close> and leaves its misses as they were. When the call throws, it has
  stored nothing: the entries of \<open>parseCache\<close> are as before and its misses have grown
  by one; the same call made next throws the same again, stores nothing and counts
  another miss.
\<close>

theorem repeated_parse_hits:
  assumes "\<not> is_reviver r"
  shows "(parse E st src r opts = (Inr v, st1) \<and> v \<noteq> JUndefined \<longrightarrow>
            fst (parse E st1 src r opts) = Inr v \<and>
            hits (parseCache (snd (parse E st1 src r opts))) = hits (parseCache st1) + 1 \<and>
            misses (parseCache (snd (parse E st1 src r opts))) = misses (parseCache st1)) \<and>
         (parse E st src r opts = (Inl t, st2) \<longrightarrow>
            cache (parseCache st2) = cache (parseCache st) \<and>
            hits (parseCache st2) = hits (parseCache st) \<and>
            misses (parseCache st2) = misses (parseCache st) + 1 \<and>
            fst (parse E st2 src r opts) = Inl t \<and>
            cache (parseCache (snd (parse E st2 src r opts))) = cache (parseCache st) \<and>
            hits (parseCache (snd (parse E st2 src r opts))) = hits (parseCache st) \<and>
            misses (parseCache (snd (parse E st2 src r opts))) = misses (parseCache st) + 2)"
proof -
  let ?key = "parse_cacheKey E src None (parse_options r opts)"
  have ret: "fst (parse E st1 src r opts) = Inr v \<and>
      hits (parseCache (snd (parse E st1 src r opts))) = hits (parseCache st1) + 1 \<and>
      misses (parseCache (snd (parse E st1 src r opts))) = misses (parseCache st1)"
    if p: "parse E st src r opts = (Inr v, st1)" and v: "v \<noteq> JUndefined"
  proof -
    have g: "map_get (cache (parseCache st1)) ?key = v"
      using assms p by (rule parse_result_cached)
    show ?thesis using parse_answers_from_cache[OF assms g v] by simp
  qed
  have thr: "cache (parseCache st2) = cache (parseCache st) \<and>
      hits (parseCache st2) = hits (parseCache st) \<and>
      misses (parseCache st2) = misses (parseCache st) + 1 \<and>
      fst (parse E st2 src r opts) = Inl t \<and>
      cache (parseCache (snd (parse E st2 src r opts))) = cache (parseCache st) \<and>
      hits (parseCache (snd (parse E st2 src r opts))) = hits (parseCache st) \<and>
      misses (parseCache (snd (parse E st2 src r opts))) = misses (parseCache st) + 2"
    if p: "parse E st src r opts = (Inl t, st2)"
  proof -
    from parse_throw_state[OF assms p]
    have m: "map_get (cache (parseCache st)) ?key = JUndefined"
      and c: "parseCache st2 = (parseCache st)\<lparr>misses := misses (parseCache st) + 1\<rparr>"
      by simp_all
    have m2: "map_get (cache (parseCache st2)) ?key = JUndefined"
      using m by (simp add: c)
    have "fst (parse E st2 src r opts) = fst (parse E st src r opts)"
      using assms m2 m by (rule parse_miss_result)
    then have again: "fst (parse E st2 src r opts) = Inl t" by (simp add: p)
    then have "parse E st2 src r opts = (Inl t, snd (parse E st2 src r opts))"
      by (metis prod.collapse)
    from parse_throw_state[OF assms this]
    have "parseCache (snd (parse E st2 src r opts)) =
        (parseCache st2)\<lparr>misses := misses (parseCache st2) + 1\<rparr>"
      by simp
    then show ?thesis using again by (simp add: c)
  qed
  from ret thr show ?thesis by blast
qed

theorem repeated_parse_hits_witness:
  "fst (parse (engine_yielding [sample_doc (js ''warn'') [] (0, 4, 4)]) initial_state (js ''null'') NoReviver None) =
     Inr JNull \<and>
   fst (parse (engine_yielding [sample_doc (js ''warn'') [] (0, 4, 4)])
     (snd (parse (engine_yielding [sample_doc (js ''warn'') [] (0, 4, 4)]) initial_state (js ''null'') NoReviver None))
     (js ''null'') NoReviver None) = Inr JNull \<and>
   hits (parseCache (snd (parse (engine_yielding [sample_doc (js ''warn'') [] (0, 4, 4)])
     (snd (parse (engine_yielding [sample_doc (js ''warn'') [] (0, 4, 4)]) initial_state (js ''null'') NoReviver None))
     (js ''null'') NoReviver None))) = 1 \<and>
   misses (parseCache (snd (parse (engine_yielding [sample_doc (js ''warn'') [] (0, 4, 4)])
     (snd (parse (engine_yielding [sample_doc (js ''warn'') [] (0, 4, 4)]) initial_state (js ''null'') NoReviver None))
     (js ''null'') NoReviver None))) = 1 \<and>
   fst (parse (engine_yielding [sample_doc (js ''warn'') [syntax_error] (0, 1, 1)])
     (snd (parse (engine_yielding [sample_doc (js ''warn'') [syntax_error] (0, 1, 1)]) initial_state
        (js ''['') (ReviverOptions []) None))
     (js ''['') (ReviverOptions []) None) = Inl (YAMLParseError syntax_error) \<and>
   misses (parseCache (snd (parse (engine_yielding [sample_doc (js ''warn'') [syntax_error] (0, 1, 1)])
     (snd (parse (engine_yielding [sample_doc (js ''warn'') [syntax_error] (0, 1, 1)]) initial_state
        (js ''['') (ReviverOptions []) None))
     (js ''['') (ReviverOptions []) None))) = 2"
proof -
  let ?E = "engine_yielding [sample_doc (js ''warn'') [] (0, 4, 4)]"
  let ?F = "engine_yielding [sample_doc (js ''warn'') [syntax_error] (0, 1, 1)]"
  define st1 where "st1 = snd (parse ?E initial_state (js ''null'') NoReviver None)"
  define st2 where "st2 = snd (parse ?F initial_state (js ''['') (ReviverOptions []) None)"
  have first: "parse ?E initial_state (js ''null'') NoReviver None = (Inr JNull, st1)"
    and c1: "hits (parseCache st1) = 0 \<and> misses (parseCache st1) = 1"
    unfolding st1_def
    by (simp_all add: parse_def parse_options_def parseDocument_def eval_parse initial_state_def
        TrackedLRUCache_def tracked_get_def lru_get_def lru_set_def split_beta object_assign_def)
  have failed: "parse ?F initial_state (js ''['') (ReviverOptions []) None =
      (Inl (YAMLParseError syntax_error), st2)"
    unfolding st2_def
    by (simp add: parse_def parse_options_def parseDocument_def eval_parse initial_state_def
        TrackedLRUCache_def tracked_get_def lru_get_def split_beta syntax_error_def)
  have z: "misses (parseCache initial_state) = 0"
    by (simp add: initial_state_def TrackedLRUCache_def)
  have nr: "\<not> is_reviver NoReviver" "\<not> is_reviver (ReviverOptions [])" by simp_all
  have "JNull \<noteq> JUndefined" by simp
  with repeated_parse_hits[OF nr(1), of ?E initial_state "js ''null''" None JNull st1]
    repeated_parse_hits[OF nr(2), of ?F initial_state "js ''[''" None _ _
      "YAMLParseError syntax_error" st2]
    c1 first failed z
  show ?thesis unfolding st1_def[symmetric] st2_def[symmetric] by simp
qed

text \<open>
  C1 as stated fails for a source the engine reports an error for: both calls throw,
  nothing is cached, and the second call is a miss like the first.
\<close>

theorem failed_parse_is_not_cached:
  "fst (parse (engine_yielding [sample_doc (js ''warn'') [syntax_error] (0, 1, 1)]) initial_state (js ''['') NoReviver None) =
     Inl (YAMLParseError syntax_error) \<and>
   fst (parse (engine_yielding [sample_doc (js ''warn'') [syntax_error] (0, 1, 1)])
     (snd (parse (engine_yielding [sample_doc (js ''warn'') [syntax_error] (0, 1, 1)]) initial_state (js ''['') NoReviver None))
     (js ''['') NoReviver None) = Inl (YAMLParseError syntax_error) \<and>
   hits (parseCache (snd (parse (engine_yielding [sample_doc (js ''warn'') [syntax_error] (0, 1, 1)])
     (snd (parse (engine_yielding [sample_doc (js ''warn'') [syntax_error] (0, 1, 1)]) initial_state (js ''['') NoReviver None))
     (js ''['') NoReviver None))) = 0 \<and>
   misses (parseCache (snd (parse (engine_yielding [sample_doc (js ''warn'') [syntax_error] (0, 1, 1)])
     (snd (parse (engine_yielding [sample_doc (js ''warn'') [syntax_error] (0, 1, 1)]) initial_state (js ''['') NoReviver None))
     (js ''['') NoReviver None))) = 2"
proof -
  let ?E = "engine_yielding [sample_doc (js ''warn'') [syntax_error] (0, 1, 1)]"
  have first: "parse ?E initial_state (js ''['') NoReviver None =
      (Inl (YAMLParseError syntax_error),
       initial_state\<lparr>parseCache := (parseCache initial_state)\<lparr>misses := 1\<rparr>\<rparr>)"
    by (simp add: parse_def parse_options_def parseDocument_def eval_parse initial_state_def
        TrackedLRUCache_def tracked_get_def lru_get_def split_beta)
  have second: "parse ?E (initial_state\<lparr>parseCache := (parseCache initial_state)\<lparr>misses := 1\<rparr>\<rparr>)
      (js ''['') NoReviver None =
      (Inl (YAMLParseError syntax_error),
       initial_state\<lparr>parseCache := (parseCache initial_state)\<lparr>misses := 2\<rparr>\<rparr>)"
    by (simp add: parse_def parse_options_def parseDocument_def eval_parse initial_state_def
        TrackedLRUCache_def tracked_get_def lru_get_def split_beta)
  show ?thesis unfolding first snd_conv second fst_conv
    by (simp add: initial_state_def TrackedLRUCache_def)
qed

section \<open>A reviver given among the options\<close>

lemma options_json_reviver: "options_json E (Some [(k, JFunction f)]) = options_json E None"
  by (simp add: options_json_def)

text \<open>
  C4 fails for a reviver function given as the property \<open>reviver\<close> of the options, which
  \<open>parse\<close> hands to \<open>toJS\<close> like the one given as its second argument. Let the store hold
  nothing under the key of the call, let the document have no errors and let \<open>toJS\<close>
  return a value other than \<open>undefined\<close> under this reviver. Then the call reads
  \<open>parseCache\<close> (a miss is counted) and stores the revived value, under the key of the
  call that has no options at all; and the call with no options made next is answered
  with the revived value from the store.
\<close>

theorem options_reviver_is_cached:
  assumes "map_get (cache (parseCache st)) (parse_cacheKey E src None None) = JUndefined"
    and "parseDocument E src (Some [(js ''reviver'', JFunction f)]) = Inr (Some doc)"
    and "errors doc = []"
    and "toJS E doc [(js ''reviver'', JFunction f)] = Inr revived"
    and "revived \<noteq> JUndefined"
    and "parse E st src NoReviver (Some [(js ''reviver'', JFunction f)]) = (r1, st1)"
  shows "r1 = Inr revived \<and>
         parse_cacheKey E src None (Some [(js ''reviver'', JFunction f)]) =
           parse_cacheKey E src None None \<and>
         misses (parseCache st1) = misses (parseCache st) + 1 \<and>
         map_get (cache (parseCache st1)) (parse_cacheKey E src None None) = revived \<and>
         fst (parse E st1 src NoReviver None) = Inr revived \<and>
         hits (parseCache (snd (parse E st1 src NoReviver None))) = hits (parseCache st1) + 1"
proof -
  let ?opts = "Some [(js ''reviver'', JFunction f)]"
  let ?key = "parse_cacheKey E src None None"
  have k: "parse_cacheKey E src None ?opts = ?key"
    by (simp add: parse_cacheKey_def options_json_reviver)
  have a: "object_assign [(js ''reviver'', JUndefined)] [(js ''reviver'', JFunction f)] =
      [(js ''reviver'', JFunction f)]"
    by (simp add: object_assign_def map_set_def map_has_def)
  have p: "parse E st src NoReviver ?opts =
      (Inr revived,
       st\<lparr>parseCache := lru_set ((parseCache st)\<lparr>misses := misses (parseCache st) + 1\<rparr>) ?key revived,
          warned := warned st @ map (\<lambda>w. (logLevel doc, w)) (warnings doc)\<rparr>)"
    using assms(2-4)
    by (simp add: parse_def parse_options_def Let_def k a tracked_get_miss[OF assms(1)])
  from p assms(6) have r1: "r1 = Inr revived"
    and st1: "st1 = st\<lparr>parseCache :=
        lru_set ((parseCache st)\<lparr>misses := misses (parseCache st) + 1\<rparr>) ?key revived,
        warned := warned st @ map (\<lambda>w. (logLevel doc, w)) (warnings doc)\<rparr>"
    by simp_all
  have m: "misses (parseCache st1) = misses (parseCache st) + 1"
    by (simp add: st1 lru_set_def Let_def)
  have g: "map_get (cache (parseCache st1)) (parse_cacheKey E src None (parse_options NoReviver None)) = revived"
    by (simp add: st1 lru_set_get parse_options_def)
  have nr: "\<not> is_reviver NoReviver" by simp
  from parse_answers_from_cache[OF nr g assms(5)] g r1 k m show ?thesis
    by (simp add: parse_options_def)
qed

theorem options_reviver_is_cached_witness:
  "fst (parse (engine_yielding [sample_doc (js ''warn'') [] (0, 4, 4)]) initial_state (js ''a: 1'')
     NoReviver None) = Inr JNull \<and>
   fst (parse (engine_yielding [sample_doc (js ''warn'') [] (0, 4, 4)]) initial_state (js ''a: 1'')
     NoReviver (Some [(js ''reviver'', JFunction 0)])) = Inr (JString (js ''revived'')) \<and>
   misses (parseCache (snd (parse (engine_yielding [sample_doc (js ''warn'') [] (0, 4, 4)])
     initial_state (js ''a: 1'') NoReviver (Some [(js ''reviver'', JFunction 0)])))) = 1 \<and>
   cache (parseCache (snd (parse (engine_yielding [sample_doc (js ''warn'') [] (0, 4, 4)])
     initial_state (js ''a: 1'') NoReviver (Some [(js ''reviver'', JFunction 0)])))) =
     [(js ''-o794d0'', JString (js ''revived''))] \<and>
   fst (parse (engine_yielding [sample_doc (js ''warn'') [] (0, 4, 4)])
     (snd (parse (engine_yielding [sample_doc (js ''warn'') [] (0, 4, 4)])
        initial_state (js ''a: 1'') NoReviver (Some [(js ''reviver'', JFunction 0)])))
     (js ''a: 1'') NoReviver None) = Inr (JString (js ''revived''))"
proof -
  let ?d = "sample_doc (js ''warn'') [] (0, 4, 4)"
  let ?E = "engine_yielding [?d]"
  let ?opts = "Some [(js ''reviver'', JFunction 0)]"
  define st1 where "st1 = snd (parse ?E initial_state (js ''a: 1'') NoReviver ?opts)"
  have plain: "fst (parse ?E initial_state (js ''a: 1'') NoReviver None) = Inr JNull"
    by (simp add: parse_def parse_options_def parseDocument_def eval_parse initial_state_def
        TrackedLRUCache_def tracked_get_def lru_get_def lru_set_def split_beta object_assign_def
        map_set_def map_has_def)
  have k: "parse_cacheKey ?E (js ''a: 1'') None None = js ''-o794d0''"
    by (simp add: eval_key)
  have a1: "map_get (cache (parseCache initial_state)) (parse_cacheKey ?E (js ''a: 1'') None None) =
      JUndefined"
    by (simp add: initial_state_def TrackedLRUCache_def map_get_def)
  have a2: "parseDocument ?E (js ''a: 1'') ?opts = Inr (Some ?d)"
    by (simp add: parseDocument_def eval_parse)
  have a3: "errors ?d = []" by (simp add: sample_doc_def)
  have a4: "toJS ?E ?d [(js ''reviver'', JFunction 0)] = Inr (JString (js ''revived''))"
    by (simp add: engine_yielding_def map_get_def)
  have a5: "JString (js ''revived'') \<noteq> JUndefined" by simp
  have a6: "parse ?E initial_state (js ''a: 1'') NoReviver ?opts =
      (fst (parse ?E initial_state (js ''a: 1'') NoReviver ?opts), st1)"
    by (simp add: st1_def)
  have c: "cache (parseCache st1) = [(js ''-o794d0'', JString (js ''revived''))]"
    unfolding st1_def
    by (simp add: parse_def parse_options_def parseDocument_def eval_parse initial_state_def
        TrackedLRUCache_def tracked_get_def lru_get_def lru_set_def split_beta object_assign_def
        map_set_def map_has_def parse_cacheKey_def options_json_def js_string_of_def)
      (simp add: k[unfolded parse_cacheKey_def options_json_def js_string_of_def, simplified])
  have z: "misses (parseCache initial_state) = 0"
    by (simp add: initial_state_def TrackedLRUCache_def)
  from options_reviver_is_cached[OF a1 a2 a3 a4 a5 a6] plain c z
  show ?thesis unfolding st1_def[symmetric] by simp
qed

section \<open>The text of a string can be read back\<close>

lemma digit_char_inj:
  assumes "a < 36" and "b < 36" and "digit_char a = digit_char b"
  shows "a = b"
proof -
  have d: "distinct ''0123456789abcdefghijklmnopqrstuvwxyz''" by simp
  have l: "length ''0123456789abcdefghijklmnopqrstuvwxyz'' = 36" by simp
  show ?thesis using assms nth_eq_iff_index_eq[OF d, of a b] unfolding digit_char_def l by blast
qed

lemma nibbles_inj:
  fixes n m :: nat
  assumes "n div 16 = m div 16" and "n mod 16 = m mod 16"
  shows "n = m"
  using assms by (metis div_mult_mod_eq)

lemma hex4_inj:
  fixes n m :: nat
  assumes "n < 65536" and "m < 65536"
    and "digit_char (n div 4096) = digit_char (m div 4096)"
    and "digit_char (n div 256 mod 16) = digit_char (m div 256 mod 16)"
    and "digit_char (n div 16 mod 16) = digit_char (m div 16 mod 16)"
    and "digit_char (n mod 16) = digit_char (m mod 16)"
  shows "n = m"
proof -
  have a: "n div 4096 = m div 4096"
    using assms(1,2,3) by (intro digit_char_inj) simp_all
  have b: "n div 256 mod 16 = m div 256 mod 16"
    using assms(4) by (intro digit_char_inj) simp_all
  have c: "n div 16 mod 16 = m div 16 mod 16"
    using assms(5) by (intro digit_char_inj) simp_all
  have d: "n mod 16 = m mod 16"
    using assms(6) by (intro digit_char_inj) simp_all
  have e: "k div 4096 = k div 256 div 16" "k div 256 = k div 16 div 16" for k :: nat
    by (simp_all add: div_mult2_eq[symmetric])
  have "n div 256 = m div 256" using a b unfolding e(1) by (rule nibbles_inj)
  then have "n div 16 = m div 16" using c unfolding e(2) by (rule nibbles_inj)
  then show ?thesis using d by (rule nibbles_inj)
qed

lemma unicode_escape_prefix:
  assumes "unicode_escape c @ x = unicode_escape c' @ y"
  shows "c = c' \<and> x = y"
proof -
  have l: "unat c < 65536" "unat c' < 65536"
    using unsigned_less[of c, where ?'a = nat] unsigned_less[of "c'", where ?'a = nat] by simp_all
  have "unat c = unat c'" and "x = y"
    using assms hex4_inj[OF l]
    by (simp_all add: unicode_escape_def Let_def js_Cons unat_js_unit word_unat_eq_iff)
  then show ?thesis by (simp add: word_unat_eq_iff)
qed

lemma unicode_escape_shape: "\<exists>a b c d. unicode_escape u = [0x5C, 0x75, a, b, c, d]"
  by (simp add: unicode_escape_def Let_def js_def)


lemma json_escape_cases:
  obtains (table) e where "json_escape c = [0x5C, e]" and "e \<noteq> 0x75"
      and "(unat c, e) \<in> {(0x22, 0x22), (0x5C, 0x5C), (0x08, 0x62), (0x0C, 0x66), (0x0A, 0x6E),
             (0x0D, 0x72), (0x09, 0x74)}"
  | (unicode) "json_escape c = unicode_escape c"
  | (plain) "json_escape c = [c]" and "unat c \<noteq> 0x5C" and "unat c \<noteq> 0x22"
      and "\<not> is_leading_surrogate c"
proof -
  consider (a) "unat c = 0x22" | (b) "unat c = 0x5C" | (c) "unat c = 0x08" | (d) "unat c = 0x0C"
    | (e) "unat c = 0x0A" | (f) "unat c = 0x0D" | (g) "unat c = 0x09"
    | (u) "unat c \<notin> {0x22, 0x5C, 0x08, 0x0C, 0x0A, 0x0D, 0x09}"
        "unat c < 0x20 \<or> is_leading_surrogate c \<or> is_trailing_surrogate c"
    | (p) "unat c \<notin> {0x22, 0x5C, 0x08, 0x0C, 0x0A, 0x0D, 0x09}"
        "\<not> (unat c < 0x20 \<or> is_leading_surrogate c \<or> is_trailing_surrogate c)"
    by blast
  then show thesis
  proof cases
    case a
    then show ?thesis by (intro table[of "0x22"]) (simp_all add: json_escape_def)
  next
    case b
    then show ?thesis by (intro table[of "0x5C"]) (simp_all add: json_escape_def)
  next
    case c
    then show ?thesis by (intro table[of "0x62"]) (simp_all add: json_escape_def js_def)
  next
    case d
    then show ?thesis by (intro table[of "0x66"]) (simp_all add: json_escape_def js_def)
  next
    case e
    then show ?thesis by (intro table[of "0x6E"]) (simp_all add: json_escape_def js_def)
  next
    case f
    then show ?thesis by (intro table[of "0x72"]) (simp_all add: json_escape_def js_def)
  next
    case g
    then show ?thesis by (intro table[of "0x74"]) (simp_all add: json_escape_def js_def)
  next
    case u
    then show ?thesis by (intro unicode) (simp add: json_escape_def)
  next
    case p
    then show ?thesis by (intro plain) (simp_all add: json_escape_def)
  qed
qed

lemma json_escape_prefix:
  assumes "json_escape c @ x = json_escape c' @ y"
  shows "c = c' \<and> x = y"
proof (cases c rule: json_escape_cases)
  case (table e)
  show ?thesis
  proof (cases c' rule: json_escape_cases)
    case t': (table e')
    from assms table(1) t'(1) have "e = e'" and "x = y" by simp_all
    moreover from this table(3) t'(3) have "unat c = unat c'" by auto
    ultimately show ?thesis by (simp add: word_unat_eq_iff)
  next
    case unicode
    obtain a b d g where "unicode_escape c' = [0x5C, 0x75, a, b, d, g]"
      using unicode_escape_shape[of c'] by blast
    with assms table(1,2) unicode show ?thesis by simp
  next
    case plain
    with assms table(1) have "c' = 0x5C" by simp
    with plain(2) show ?thesis by simp
  qed
next
  case unicode
  show ?thesis
  proof (cases c' rule: json_escape_cases)
    case (table e')
    obtain a b d g where "unicode_escape c = [0x5C, 0x75, a, b, d, g]"
      using unicode_escape_shape[of c] by blast
    with assms table(1,2) unicode show ?thesis by simp
  next
    case u': unicode
    with assms unicode show ?thesis by (simp add: unicode_escape_prefix)
  next
    case plain
    obtain a b d g where "unicode_escape c = [0x5C, 0x75, a, b, d, g]"
      using unicode_escape_shape[of c] by blast
    with assms unicode plain(1) have "c' = 0x5C" by simp
    with plain(2) show ?thesis by simp
  qed
next
  case plain
  show ?thesis
  proof (cases c' rule: json_escape_cases)
    case (table e')
    with assms plain(1) have "c = 0x5C" by simp
    with plain(2) show ?thesis by simp
  next
    case unicode
    obtain a b d g where "unicode_escape c' = [0x5C, 0x75, a, b, d, g]"
      using unicode_escape_shape[of c'] by blast
    with assms unicode plain(1) have "c = 0x5C" by simp
    with plain(2) show ?thesis by simp
  next
    case p': plain
    with assms plain(1) show ?thesis by simp
  qed
qed

lemma json_escape_head:
  "\<exists>h rest. json_escape c = h # rest \<and> h \<noteq> 0x22 \<and> \<not> is_leading_surrogate h"
proof (cases c rule: json_escape_cases)
  case (table e)
  have "(0x5C :: code_unit) \<noteq> 0x22 \<and> \<not> is_leading_surrogate 0x5C"
    by (simp add: is_leading_surrogate_def)
  with table(1) show ?thesis by blast
next
  case unicode
  obtain a b d g where "unicode_escape c = [0x5C, 0x75, a, b, d, g]"
    using unicode_escape_shape[of c] by blast
  moreover have "(0x5C :: code_unit) \<noteq> 0x22 \<and> \<not> is_leading_surrogate 0x5C"
    by (simp add: is_leading_surrogate_def)
  ultimately show ?thesis using unicode by auto
next
  case plain
  have "c \<noteq> 0x22" using plain(3) by auto
  with plain(1,4) show ?thesis by blast
qed

lemma json_quote_units_Cons:
  "json_quote_units (c # cs) =
     (if is_leading_surrogate c \<and> cs \<noteq> [] \<and> is_trailing_surrogate (hd cs)
      then c # hd cs # json_quote_units (tl cs)
      else json_escape c @ json_quote_units cs)"
  by (cases cs) simp_all

lemma json_quote_units_single:
  "\<not> (is_leading_surrogate c \<and> cs \<noteq> [] \<and> is_trailing_surrogate (hd cs)) \<Longrightarrow>
   json_quote_units (c # cs) = json_escape c @ json_quote_units cs"
  by (subst json_quote_units_Cons) (rule if_not_P)

lemma json_quote_units_pair:
  "is_leading_surrogate c \<and> cs \<noteq> [] \<and> is_trailing_surrogate (hd cs) \<Longrightarrow>
   json_quote_units (c # cs) = c # hd cs # json_quote_units (tl cs)"
  by (subst json_quote_units_Cons) (rule if_P)

lemma leading_not_quote: "is_leading_surrogate c \<Longrightarrow> c \<noteq> 0x22"
  by (auto simp: is_leading_surrogate_def)

lemma json_quote_units_head:
  "\<exists>h rest. json_quote_units (c # cs) = h # rest \<and> h \<noteq> 0x22 \<and>
     (is_leading_surrogate h \<longleftrightarrow> is_leading_surrogate c \<and> cs \<noteq> [] \<and> is_trailing_surrogate (hd cs))"
proof (cases "is_leading_surrogate c \<and> cs \<noteq> [] \<and> is_trailing_surrogate (hd cs)")
  case True
  then have "json_quote_units (c # cs) = c # (hd cs # json_quote_units (tl cs))"
    by (rule json_quote_units_pair)
  moreover have "c \<noteq> 0x22" using True by (simp add: leading_not_quote)
  ultimately show ?thesis using True by blast
next
  case False
  obtain h rest where e: "json_escape c = h # rest" "h \<noteq> 0x22" "\<not> is_leading_surrogate h"
    using json_escape_head[of c] by blast
  have "json_quote_units (c # cs) = h # (rest @ json_quote_units cs)"
    using e(1) by (simp add: json_quote_units_single[OF False])
  with e(2,3) False show ?thesis by blast
qed

lemma json_quote_units_prefix:
  "json_quote_units s @ 0x22 # r = json_quote_units t @ 0x22 # r' \<Longrightarrow> s = t \<and> r = r'"
proof (induction "length s" arbitrary: s t rule: less_induct)
  case less
  show ?case
  proof (cases s)
    case Nil
    show ?thesis
    proof (cases t)
      case t: (Cons c' cs')
      obtain h rest where "json_quote_units (c' # cs') = h # rest" "h \<noteq> 0x22"
        using json_quote_units_head[of c' cs'] by blast
      with less.prems Nil t show ?thesis by simp
    qed (use less.prems Nil in simp)
  next
    case (Cons c cs)
    obtain h rest where h: "json_quote_units (c # cs) = h # rest" "h \<noteq> 0x22"
        "is_leading_surrogate h \<longleftrightarrow> is_leading_surrogate c \<and> cs \<noteq> [] \<and> is_trailing_surrogate (hd cs)"
      using json_quote_units_head[of c cs] by blast
    show ?thesis
    proof (cases t)
      case Nil
      with less.prems Cons h show ?thesis by simp
    next
      case t: (Cons c' cs')
      obtain h' rest' where h': "json_quote_units (c' # cs') = h' # rest'" "h' \<noteq> 0x22"
          "is_leading_surrogate h' \<longleftrightarrow>
             is_leading_surrogate c' \<and> cs' \<noteq> [] \<and> is_trailing_surrogate (hd cs')"
        using json_quote_units_head[of c' cs'] by blast
      have hh: "h = h'" using less.prems Cons t h(1) h'(1) by simp
      show ?thesis
      proof (cases "is_leading_surrogate c \<and> cs \<noteq> [] \<and> is_trailing_surrogate (hd cs)")
        case True
        then have p': "is_leading_surrogate c' \<and> cs' \<noteq> [] \<and> is_trailing_surrogate (hd cs')"
          using h(3) h'(3) hh by simp
        from less.prems Cons t
        have e: "c = c'" "hd cs = hd cs'"
          "json_quote_units (tl cs) @ 0x22 # r = json_quote_units (tl cs') @ 0x22 # r'"
          by (simp_all add: json_quote_units_pair[OF True] json_quote_units_pair[OF p'])
        have "length (tl cs) < length s" using Cons True by (cases cs) simp_all
        from less.hyps[OF this e(3)] have "tl cs = tl cs'" "r = r'" by simp_all
        with e(1,2) True p' have "cs = cs'" by (metis list.collapse)
        with e(1) \<open>r = r'\<close> Cons t show ?thesis by simp
      next
        case False
        then have p': "\<not> (is_leading_surrogate c' \<and> cs' \<noteq> [] \<and> is_trailing_surrogate (hd cs'))"
          using h(3) h'(3) hh by simp
        from less.prems Cons t
        have "json_escape c @ (json_quote_units cs @ 0x22 # r) =
            json_escape c' @ (json_quote_units cs' @ 0x22 # r')"
          by (simp add: json_quote_units_single[OF False] json_quote_units_single[OF p'])
        then have e: "c = c'" "json_quote_units cs @ 0x22 # r = json_quote_units cs' @ 0x22 # r'"
          using json_escape_prefix by blast+
        have "length cs < length s" using Cons by simp
        from less.hyps[OF this e(2)] e(1) Cons t show ?thesis by simp
      qed
    qed
  qed
qed

lemma json_quote_prefix: "json_quote s @ r = json_quote t @ r' \<Longrightarrow> s = t \<and> r = r'"
  using json_quote_units_prefix[of s r t r'] by (simp add: json_quote_def)

section \<open>The text of an integer can be read back\<close>

lemma nat_to_radix_nonempty: "nat_to_radix b n \<noteq> []"
  by (subst nat_to_radix.simps) simp

lemma decimal_digit_set: "d < 10 \<Longrightarrow> digit_char d \<in> set ''0123456789''"
proof -
  assume "d < 10"
  then have "d \<in> {0, 1, 2, 3, 4, 5, 6, 7, 8, 9}" by auto
  then show ?thesis by (auto simp: digit_char_def)
qed

lemma nat_to_radix_decimal_chars: "set (nat_to_radix 10 n) \<subseteq> set ''0123456789''"
proof (induction "10 :: nat" n rule: nat_to_radix.induct)
  case (1 n)
  show ?case
  proof (cases "n < 10")
    case True
    then show ?thesis using decimal_digit_set[of n] by (subst nat_to_radix.simps) simp
  next
    case False
    have "n mod 10 < 10" by simp
    then have "digit_char (n mod 10) \<in> set ''0123456789''" by (rule decimal_digit_set)
    then show ?thesis using False 1 by (subst nat_to_radix.simps) simp
  qed
qed

lemma nat_to_radix_inj: "nat_to_radix 10 n = nat_to_radix 10 m \<Longrightarrow> n = m"
proof (induction "10 :: nat" n arbitrary: m rule: nat_to_radix.induct)
  case (1 n)
  show ?case
  proof (cases "n < 10")
    case n: True
    show ?thesis
    proof (cases "m < 10")
      case True
      then have "digit_char n = digit_char m"
        using n "1.prems" by (simp add: nat_to_radix.simps[of 10 n] nat_to_radix.simps[of 10 m])
      then show ?thesis using n True digit_char_inj[of n m] by simp
    next
      case False
      then have "length (nat_to_radix 10 m) \<ge> 2"
        using nat_to_radix_nonempty[of 10 "m div 10"]
        by (subst nat_to_radix.simps) (cases "nat_to_radix 10 (m div 10)", simp_all)
      moreover have "length (nat_to_radix 10 n) = 1" using n by (subst nat_to_radix.simps) simp
      ultimately show ?thesis using "1.prems" by simp
    qed
  next
    case n: False
    show ?thesis
    proof (cases "m < 10")
      case True
      have "length (nat_to_radix 10 n) \<ge> 2"
        using n nat_to_radix_nonempty[of 10 "n div 10"]
        by (subst nat_to_radix.simps) (cases "nat_to_radix 10 (n div 10)", simp_all)
      moreover have "length (nat_to_radix 10 m) = 1" using True by (subst nat_to_radix.simps) simp
      ultimately show ?thesis using "1.prems" by simp
    next
      case False
      have "nat_to_radix 10 (n div 10) @ [digit_char (n mod 10)] =
            nat_to_radix 10 (m div 10) @ [digit_char (m mod 10)]"
        using n False "1.prems" by (simp add: nat_to_radix.simps[of 10 n] nat_to_radix.simps[of 10 m])
      then have a: "nat_to_radix 10 (n div 10) = nat_to_radix 10 (m div 10)"
        and b: "digit_char (n mod 10) = digit_char (m mod 10)" by simp_all
      have "n div 10 = m div 10" using "1.hyps"[of "m div 10"] n a by simp
      moreover have "n mod 10 = m mod 10" using b digit_char_inj[of "n mod 10" "m mod 10"] by simp
      ultimately show ?thesis by (metis div_mult_mod_eq)
    qed
  qed
qed

lemma int_to_radix_inj: "int_to_radix 10 i = int_to_radix 10 j \<Longrightarrow> i = j"
proof -
  assume e: "int_to_radix 10 i = int_to_radix 10 j"
  have nd: "hd (nat_to_radix 10 n) \<noteq> CHR ''-''" for n
    using nat_to_radix_decimal_chars[of n] nat_to_radix_nonempty[of 10 n]
    by (cases "nat_to_radix 10 n") auto
  have ne: "nat_to_radix 10 n \<noteq> CHR ''-'' # s \<and> CHR ''-'' # s \<noteq> nat_to_radix 10 n" for n s
    using nd[of n] by (metis list.sel(1))
  show ?thesis
  proof (cases "i < 0")
    case i: True
    show ?thesis
    proof (cases "j < 0")
      case True
      then have "nat (- i) = nat (- j)" using e i nat_to_radix_inj by (simp add: int_to_radix_def)
      then show ?thesis using i True by simp
    next
      case False
      then show ?thesis using e i ne[of "nat j" "nat_to_radix 10 (nat (- i))"] by (simp add: int_to_radix_def)
    qed
  next
    case i: False
    show ?thesis
    proof (cases "j < 0")
      case True
      then show ?thesis using e i ne[of "nat i" "nat_to_radix 10 (nat (- j))"] by (simp add: int_to_radix_def)
    next
      case False
      then have "nat i = nat j" using e i nat_to_radix_inj by (simp add: int_to_radix_def)
      then show ?thesis using i False by simp
    qed
  qed
qed

lemma int_to_radix_chars: "int_to_radix 10 i \<noteq> [] \<and> set (int_to_radix 10 i) \<subseteq> set ''-0123456789''"
proof -
  have s: "set ''0123456789'' \<subseteq> set ''-0123456789''" by simp
  have c: "CHR ''-'' \<in> set ''-0123456789''" by simp
  show ?thesis
  proof (cases "i < 0")
    case True
    have "set (nat_to_radix 10 (nat (- i))) \<subseteq> set ''-0123456789''"
      using nat_to_radix_decimal_chars[of "nat (- i)"] s by (rule order_trans)
    then have "set (CHR ''-'' # nat_to_radix 10 (nat (- i))) \<subseteq> set ''-0123456789''"
      using c by (simp only: set_simps insert_subset)
    then show ?thesis using True by (simp only: int_to_radix_def if_True) simp
  next
    case False
    have "set (nat_to_radix 10 (nat i)) \<subseteq> set ''-0123456789''"
      using nat_to_radix_decimal_chars[of "nat i"] s by (rule order_trans)
    then show ?thesis using False nat_to_radix_nonempty[of 10 "nat i"]
      by (simp only: int_to_radix_def if_False) simp
  qed
qed

lemma set_js: "set (js s) = (\<lambda>c. of_nat (of_char c)) ` set s"
  by (simp add: js_def)

lemma set_js_mono: "set s \<subseteq> set t \<Longrightarrow> set (js s) \<subseteq> set (js t)"
  by (auto simp: set_js)

section \<open>The text of a number\<close>

lemma safe_integer_text:
  "safe_integer r \<Longrightarrow> number_to_string fmt r = js (int_to_radix 10 \<lfloor>r\<rfloor>)"
  by (simp add: safe_integer_def number_to_string_def)

lemma number_text_chars:
  assumes "safe_integer r \<or> number_format_faithful fmt"
  shows "number_to_string fmt r \<noteq> [] \<and>
         set (number_to_string fmt r) \<subseteq> set (js ''0123456789+-.e'')"
proof (cases "number_format_faithful fmt")
  case True
  then show ?thesis unfolding number_format_faithful_def by blast
next
  case False
  with assms have s: "safe_integer r" by simp
  have "set ''-0123456789'' \<subseteq> set ''0123456789+-.e''" by simp
  then have "set (int_to_radix 10 \<lfloor>r\<rfloor>) \<subseteq> set ''0123456789+-.e''"
    using int_to_radix_chars[of "\<lfloor>r\<rfloor>"] by (meson order_trans)
  then have "set (js (int_to_radix 10 \<lfloor>r\<rfloor>)) \<subseteq> set (js ''0123456789+-.e'')"
    by (rule set_js_mono)
  moreover have "js (int_to_radix 10 \<lfloor>r\<rfloor>) \<noteq> []"
    using int_to_radix_chars[of "\<lfloor>r\<rfloor>"] by simp
  ultimately show ?thesis unfolding safe_integer_text[OF s] by blast
qed

lemma number_text_inj:
  assumes "safe_integer r \<or> number_format_faithful fmt"
    and "safe_integer s \<or> number_format_faithful fmt"
    and "number_to_string fmt r = number_to_string fmt s"
  shows "r = s"
proof (cases "number_format_faithful fmt")
  case True
  then show ?thesis using assms(3) unfolding number_format_faithful_def by blast
next
  case False
  with assms have r: "safe_integer r" and s: "safe_integer s" by simp_all
  have "js (int_to_radix 10 \<lfloor>r\<rfloor>) = js (int_to_radix 10 \<lfloor>s\<rfloor>)"
    using assms(3) by (simp add: safe_integer_text r s)
  then have "\<lfloor>r\<rfloor> = \<lfloor>s\<rfloor>" by (simp add: int_to_radix_inj)
  then show ?thesis using r s by (metis safe_integer_def)
qed

lemma split_at_delimiter:
  assumes "set a \<subseteq> N" and "set b \<subseteq> N"
    and "r = [] \<or> hd r \<notin> N" and "r' = [] \<or> hd r' \<notin> N"
    and "a @ r = b @ r'"
  shows "a = b \<and> r = r'"
proof -
  have t: "takeWhile (\<lambda>c. c \<in> N) (x @ y) = x" if "set x \<subseteq> N" and "y = [] \<or> hd y \<notin> N" for x y
  proof -
    have "takeWhile (\<lambda>c. c \<in> N) y = []" using that(2) by (cases y) auto
    moreover have "takeWhile (\<lambda>c. c \<in> N) (x @ y) = x @ takeWhile (\<lambda>c. c \<in> N) y"
      using that(1) by (intro takeWhile_append2) auto
    ultimately show ?thesis by simp
  qed
  have "a = b" using t[OF assms(1,3)] t[OF assms(2,4)] assms(5) by simp
  then show ?thesis using assms(5) by simp
qed

section \<open>Texts joined by commas\<close>

lemma join_comma_Cons:
  "join_comma (x # xs) = x @ (if xs = [] then [] else 0x2C # join_comma xs)"
  by (cases xs) (simp_all add: js_def)

lemma hd_append_eq: "a \<noteq> [] \<Longrightarrow> b \<noteq> [] \<Longrightarrow> a @ r = b @ r' \<Longrightarrow> hd a = hd b"
  by (metis hd_append2)

lemma joined_prefix:
  fixes f :: "'a \<Rightarrow> jsstring"
  assumes step: "\<And>x y u u'. x \<in> set xs \<Longrightarrow> y \<in> set ys \<Longrightarrow>
        u = [] \<or> hd u \<in> {0x2C, 0x5D, 0x7D} \<Longrightarrow> u' = [] \<or> hd u' \<in> {0x2C, 0x5D, 0x7D} \<Longrightarrow>
        f x @ u = f y @ u' \<Longrightarrow> x = y \<and> u = u'"
    and head: "\<And>x. x \<in> set xs \<union> set ys \<Longrightarrow> f x \<noteq> [] \<and> hd (f x) \<noteq> close"
    and close: "close \<in> {0x5D, 0x7D}"
    and eq: "join_comma (map f xs) @ close # r = join_comma (map f ys) @ close # r'"
  shows "xs = ys \<and> r = r'"
  using step head eq
proof (induction xs arbitrary: ys)
  case Nil
  show ?case
  proof (cases ys)
    case (Cons y ys')
    then have "f y \<noteq> []" "hd (f y) \<noteq> close" using Nil.prems(2)[of y] by simp_all
    moreover have "close # r = f y @ ((if ys' = [] then [] else 0x2C # join_comma (map f ys')) @ close # r')"
      using Nil.prems(3) Cons by (simp add: join_comma_Cons)
    ultimately show ?thesis by (metis hd_append2 list.sel(1))
  qed (use Nil.prems(3) in simp)
next
  case (Cons x xs')
  let ?U = "\<lambda>zs t. (if zs = [] then [] else 0x2C # join_comma (map f zs)) @ close # t"
  show ?case
  proof (cases ys)
    case Nil
    have "f x \<noteq> []" "hd (f x) \<noteq> close" using Cons.prems(2)[of x] by simp_all
    moreover have "f x @ ?U xs' r = close # r'"
      using Cons.prems(3) Nil by (simp add: join_comma_Cons)
    ultimately show ?thesis by (metis hd_append2 list.sel(1))
  next
    case ys: (Cons y ys')
    have e: "f x @ ?U xs' r = f y @ ?U ys' r'"
      using Cons.prems(3) ys by (simp add: join_comma_Cons)
    have d: "?U zs t = [] \<or> hd (?U zs t) \<in> {0x2C, 0x5D, 0x7D}" for zs t
      using close by auto
    have "x = y \<and> ?U xs' r = ?U ys' r'"
      using Cons.prems(1)[of x y "?U xs' r" "?U ys' r'"] d e ys by simp
    then have xy: "x = y" and u: "?U xs' r = ?U ys' r'" by simp_all
    have c: "close \<noteq> 0x2C" using close by auto
    show ?thesis
    proof (cases "xs' = []")
      case True
      then show ?thesis using u xy ys c by (cases "ys' = []") auto
    next
      case False
      then have ne: "ys' \<noteq> []" using u c by (cases "ys' = []") auto
      have j: "join_comma (map f xs') @ close # r = join_comma (map f ys') @ close # r'"
        using u False ne by simp
      have "xs' = ys' \<and> r = r'"
      proof (rule Cons.IH)
        show "x = y \<and> u = u'" if "x \<in> set xs'" "y \<in> set ys'"
          "u = [] \<or> hd u \<in> {0x2C, 0x5D, 0x7D}" "u' = [] \<or> hd u' \<in> {0x2C, 0x5D, 0x7D}"
          "f x @ u = f y @ u'" for x y u u'
          using Cons.prems(1)[of x y u u'] that ys by simp
        show "f x \<noteq> [] \<and> hd (f x) \<noteq> close" if "x \<in> set xs' \<union> set ys'" for x
          using Cons.prems(2)[of x] that ys by auto
        show "join_comma (map f xs') @ close # r = join_comma (map f ys') @ close # r'" by (rule j)
      qed
      then show ?thesis using xy ys by simp
    qed
  qed
qed

section \<open>The text of a value\<close>

lemma json_faithful_some: "json_faithful fmt v \<Longrightarrow> \<exists>a. json_stringify fmt v = Some a"
  by (cases "(fmt, v)" rule: json_faithful.cases) simp_all

lemma faithful_elements:
  "list_all (json_faithful fmt) xs \<Longrightarrow>
   json_elements fmt xs = map (\<lambda>x. the (json_stringify fmt x)) xs"
proof (induction xs)
  case (Cons x xs)
  then obtain a where "json_stringify fmt x = Some a" using json_faithful_some[of fmt x] by auto
  with Cons show ?case by simp
qed simp

lemma faithful_members:
  "list_all (\<lambda>p. json_faithful fmt (snd p)) ps \<Longrightarrow>
   json_members fmt ps = map (\<lambda>p. json_quote (fst p) @ 0x3A # the (json_stringify fmt (snd p))) ps"
proof (induction ps)
  case (Cons p ps)
  obtain k v where p: "p = (k, v)" by (cases p)
  with Cons obtain a where "json_stringify fmt v = Some a" using json_faithful_some[of fmt v] by auto
  with Cons p show ?case by (simp add: js_def)
qed simp

lemma json_text_cases:
  assumes "json_faithful fmt v"
  obtains (null) "v = JNull" and "the (json_stringify fmt v) = js ''null''"
  | (true) "v = JBool True" and "the (json_stringify fmt v) = js ''true''"
  | (false) "v = JBool False" and "the (json_stringify fmt v) = js ''false''"
  | (string) s where "v = JString s" and "the (json_stringify fmt v) = json_quote s"
  | (number) r where "v = JNumber (Fin r)" and "safe_integer r \<or> number_format_faithful fmt"
      and "the (json_stringify fmt v) = number_to_string fmt r"
  | (array) xs where "v = JArray xs" and "list_all (json_faithful fmt) xs"
      and "the (json_stringify fmt v) =
             0x5B # join_comma (map (\<lambda>x. the (json_stringify fmt x)) xs) @ [0x5D]"
  | (object) ps where "v = JObject ps" and "list_all (\<lambda>p. json_faithful fmt (snd p)) ps"
      and "the (json_stringify fmt v) =
             0x7B # join_comma (map (\<lambda>p. json_quote (fst p) @ 0x3A # the (json_stringify fmt (snd p))) ps)
               @ [0x7D]"
proof (cases "(fmt, v)" rule: json_faithful.cases)
  case (1 fmt')
  then show ?thesis using null by simp
next
  case (2 fmt' b)
  then show ?thesis using true false by (cases b) simp_all
next
  case (3 fmt' s)
  then show ?thesis using string by simp
next
  case (4 fmt' r)
  then show ?thesis using number[of r] assms by (simp add: json_number_def)
next
  case (5 fmt' xs)
  then show ?thesis using array[of xs] assms by (simp add: faithful_elements js_def)
next
  case (6 fmt' ps)
  then show ?thesis using object[of ps] assms by (simp add: faithful_members js_def)
qed (use assms in simp_all)

lemma number_units_tags:
  assumes "c \<in> set (js ''0123456789+-.e'')"
  shows "c \<notin> {0x6E, 0x74, 0x66, 0x22, 0x5B, 0x7B, 0x2C, 0x5D, 0x7D}"
  using assms by (auto simp: js_def)

text \<open>The first unit of the text of a value tells what kind of value it is.\<close>

lemma json_text_hd:
  assumes "json_faithful fmt v"
  shows "the (json_stringify fmt v) \<noteq> [] \<and>
         hd (the (json_stringify fmt v)) \<notin> {0x2C, 0x5D, 0x7D} \<and>
         (hd (the (json_stringify fmt v)) = 0x6E \<longleftrightarrow> v = JNull) \<and>
         (hd (the (json_stringify fmt v)) = 0x74 \<longleftrightarrow> v = JBool True) \<and>
         (hd (the (json_stringify fmt v)) = 0x66 \<longleftrightarrow> v = JBool False) \<and>
         (hd (the (json_stringify fmt v)) = 0x22 \<longleftrightarrow> (\<exists>s. v = JString s)) \<and>
         (hd (the (json_stringify fmt v)) = 0x5B \<longleftrightarrow> (\<exists>xs. v = JArray xs)) \<and>
         (hd (the (json_stringify fmt v)) = 0x7B \<longleftrightarrow> (\<exists>ps. v = JObject ps)) \<and>
         (hd (the (json_stringify fmt v)) \<in> set (js ''0123456789+-.e'') \<longleftrightarrow> (\<exists>r. v = JNumber (Fin r)))"
  using assms
proof (cases rule: json_text_cases)
  case null
  then show ?thesis by (simp add: js_def)
next
  case true
  then show ?thesis by (simp add: js_def)
next
  case false
  then show ?thesis by (simp add: js_def)
next
  case (string s)
  then show ?thesis by (simp add: json_quote_def) (simp add: js_def)
next
  case (number r)
  let ?a = "number_to_string fmt r"
  have "?a \<noteq> []" and "set ?a \<subseteq> set (js ''0123456789+-.e'')"
    using number_text_chars[OF number(2)] by simp_all
  then have h: "hd ?a \<in> set (js ''0123456789+-.e'')" by (cases ?a) auto
  from number_units_tags[OF h] h \<open>?a \<noteq> []\<close> number(1,3) show ?thesis by simp
next
  case (array xs)
  then show ?thesis by simp (simp add: js_def)
next
  case (object ps)
  then show ?thesis by simp (simp add: js_def)
qed

lemma json_text_nonempty: "json_faithful fmt v \<Longrightarrow> the (json_stringify fmt v) \<noteq> []"
  using json_text_hd[of fmt v] by blast

lemma json_text_no_delimiter:
  "json_faithful fmt v \<Longrightarrow> hd (the (json_stringify fmt v)) \<notin> {0x2C, 0x5D, 0x7D}"
  using json_text_hd[of fmt v] by blast

lemma json_text_null: "json_faithful fmt v \<Longrightarrow> hd (the (json_stringify fmt v)) = 0x6E \<Longrightarrow> v = JNull"
  using json_text_hd[of fmt v] by blast

lemma json_text_true:
  "json_faithful fmt v \<Longrightarrow> hd (the (json_stringify fmt v)) = 0x74 \<Longrightarrow> v = JBool True"
  using json_text_hd[of fmt v] by blast

lemma json_text_false:
  "json_faithful fmt v \<Longrightarrow> hd (the (json_stringify fmt v)) = 0x66 \<Longrightarrow> v = JBool False"
  using json_text_hd[of fmt v] by blast

lemma json_text_string:
  "json_faithful fmt v \<Longrightarrow> hd (the (json_stringify fmt v)) = 0x22 \<Longrightarrow> \<exists>s. v = JString s"
  using json_text_hd[of fmt v] by blast

lemma json_text_array:
  "json_faithful fmt v \<Longrightarrow> hd (the (json_stringify fmt v)) = 0x5B \<Longrightarrow> \<exists>xs. v = JArray xs"
  using json_text_hd[of fmt v] by blast

lemma json_text_object:
  "json_faithful fmt v \<Longrightarrow> hd (the (json_stringify fmt v)) = 0x7B \<Longrightarrow> \<exists>ps. v = JObject ps"
  using json_text_hd[of fmt v] by blast

lemma json_text_number:
  "json_faithful fmt v \<Longrightarrow> hd (the (json_stringify fmt v)) \<in> set (js ''0123456789+-.e'') \<Longrightarrow>
   \<exists>r. v = JNumber (Fin r)"
  using json_text_hd[of fmt v] by blast

lemma json_text_same_hd:
  assumes "json_faithful fmt v" and "json_faithful fmt w"
    and "the (json_stringify fmt v) @ r = the (json_stringify fmt w) @ r'"
  shows "hd (the (json_stringify fmt w)) = hd (the (json_stringify fmt v))"
  using json_text_nonempty[OF assms(1)] json_text_nonempty[OF assms(2)] assms(3)
  by (metis hd_append2)

lemma delimiter_no_number_unit:
  "r = [] \<or> hd r \<in> {0x2C, 0x5D, 0x7D} \<Longrightarrow> r = [] \<or> hd r \<notin> set (js ''0123456789+-.e'')"
  using number_units_tags[of "hd r"] by auto

text \<open>
  A value can be read back from the front of a text: when the text of one value,
  followed by a comma, a closing bracket or nothing, is the text of another followed
  so, the values are the same.
\<close>

lemma json_text_prefix:
  assumes "json_faithful fmt v" and "json_faithful fmt w"
    and "r = [] \<or> hd r \<in> {0x2C, 0x5D, 0x7D}" and "r' = [] \<or> hd r' \<in> {0x2C, 0x5D, 0x7D}"
    and "the (json_stringify fmt v) @ r = the (json_stringify fmt w) @ r'"
  shows "v = w \<and> r = r'"
  using assms
proof (induction fmt v arbitrary: w r r' rule: json_faithful.induct)
  case (1 fmt)
  have "hd (the (json_stringify fmt w)) = 0x6E"
    unfolding json_text_same_hd[OF "1.prems"(1,2,5)] by (simp add: js_def)
  then have "w = JNull" by (rule json_text_null[OF "1.prems"(2)])
  then show ?case using "1.prems"(5) by simp
next
  case (2 fmt b)
  show ?case
  proof (cases b)
    case True
    have "hd (the (json_stringify fmt w)) = 0x74"
      unfolding json_text_same_hd[OF "2.prems"(1,2,5)] using True by (simp add: js_def)
    then have "w = JBool True" by (rule json_text_true[OF "2.prems"(2)])
    then show ?thesis using "2.prems"(5) True by simp
  next
    case False
    have "hd (the (json_stringify fmt w)) = 0x66"
      unfolding json_text_same_hd[OF "2.prems"(1,2,5)] using False by (simp add: js_def)
    then have "w = JBool False" by (rule json_text_false[OF "2.prems"(2)])
    then show ?thesis using "2.prems"(5) False by simp
  qed
next
  case (3 fmt s)
  have "hd (the (json_stringify fmt w)) = 0x22"
    unfolding json_text_same_hd[OF "3.prems"(1,2,5)] by (simp add: json_quote_def)
  then obtain s' where w: "w = JString s'" using json_text_string[OF "3.prems"(2)] by blast
  have "json_quote s @ r = json_quote s' @ r'" using "3.prems"(5) w by simp
  then have "s = s' \<and> r = r'" by (rule json_quote_prefix)
  then show ?case using w by simp
next
  case (4 fmt x)
  have "\<exists>r. JNumber (Fin x) = JNumber (Fin r)" by blast
  then have "hd (the (json_stringify fmt w)) \<in> set (js ''0123456789+-.e'')"
    unfolding json_text_same_hd[OF "4.prems"(1,2,5)] using json_text_hd[OF "4.prems"(1)] by blast
  then obtain y where w: "w = JNumber (Fin y)" using json_text_number[OF "4.prems"(2)] by blast
  have fx: "safe_integer x \<or> number_format_faithful fmt"
    and fy: "safe_integer y \<or> number_format_faithful fmt"
    using "4.prems"(1,2) w by simp_all
  have e: "number_to_string fmt x @ r = number_to_string fmt y @ r'"
    using "4.prems"(5) w by (simp add: json_number_def)
  have cx: "set (number_to_string fmt x) \<subseteq> set (js ''0123456789+-.e'')"
    and cy: "set (number_to_string fmt y) \<subseteq> set (js ''0123456789+-.e'')"
    using number_text_chars[OF fx] number_text_chars[OF fy] by blast+
  have "number_to_string fmt x = number_to_string fmt y \<and> r = r'"
    using cx cy delimiter_no_number_unit[OF "4.prems"(3)] delimiter_no_number_unit[OF "4.prems"(4)] e
    by (rule split_at_delimiter)
  then show ?case using number_text_inj[OF fx fy] w by simp
next
  case (5 fmt xs)
  let ?T = "\<lambda>x. the (json_stringify fmt x)"
  have "hd (?T w) = 0x5B"
    unfolding json_text_same_hd[OF "5.prems"(1,2,5)] by (simp add: js_def)
  then obtain ys where w: "w = JArray ys" using json_text_array[OF "5.prems"(2)] by blast
  have fx: "list_all (json_faithful fmt) xs" and fy: "list_all (json_faithful fmt) ys"
    using "5.prems"(1,2) w by simp_all
  have e: "join_comma (map ?T xs) @ 0x5D # r = join_comma (map ?T ys) @ 0x5D # r'"
    using "5.prems"(5) w fx fy by (simp add: faithful_elements js_def)
  have "xs = ys \<and> r = r'"
  proof (rule joined_prefix[where f = ?T and close = "0x5D"])
    show "x = y \<and> u = u'" if "x \<in> set xs" "y \<in> set ys"
      "u = [] \<or> hd u \<in> {0x2C, 0x5D, 0x7D}" "u' = [] \<or> hd u' \<in> {0x2C, 0x5D, 0x7D}"
      "?T x @ u = ?T y @ u'" for x y u u'
    proof (rule "5.IH"[OF that(1)])
      show "json_faithful fmt x" using fx that(1) by (simp add: list_all_iff)
      show "json_faithful fmt y" using fy that(2) by (simp add: list_all_iff)
    qed (use that in simp_all)
    show "?T x \<noteq> [] \<and> hd (?T x) \<noteq> 0x5D" if "x \<in> set xs \<union> set ys" for x
    proof -
      have "json_faithful fmt x" using fx fy that by (auto simp: list_all_iff)
      from json_text_nonempty[OF this] json_text_no_delimiter[OF this] show ?thesis by simp
    qed
    show "(0x5D :: code_unit) \<in> {0x5D, 0x7D}" by simp
    show "join_comma (map ?T xs) @ 0x5D # r = join_comma (map ?T ys) @ 0x5D # r'" by (rule e)
  qed
  then show ?case using w by simp
next
  case (6 fmt ps)
  let ?T = "\<lambda>x. the (json_stringify fmt x)"
  let ?M = "\<lambda>p. json_quote (fst p) @ 0x3A # ?T (snd p)"
  have "hd (?T w) = 0x7B"
    unfolding json_text_same_hd[OF "6.prems"(1,2,5)] by (simp add: js_def)
  then obtain qs where w: "w = JObject qs" using json_text_object[OF "6.prems"(2)] by blast
  have fp: "list_all (\<lambda>p. json_faithful fmt (snd p)) ps"
    and fq: "list_all (\<lambda>p. json_faithful fmt (snd p)) qs"
    using "6.prems"(1,2) w by simp_all
  have e: "join_comma (map ?M ps) @ 0x7D # r = join_comma (map ?M qs) @ 0x7D # r'"
    using "6.prems"(5) w fp fq by (simp add: faithful_members js_def)
  have "ps = qs \<and> r = r'"
  proof (rule joined_prefix[where f = ?M and close = "0x7D"])
    show "p = q \<and> u = u'" if "p \<in> set ps" "q \<in> set qs"
      "u = [] \<or> hd u \<in> {0x2C, 0x5D, 0x7D}" "u' = [] \<or> hd u' \<in> {0x2C, 0x5D, 0x7D}"
      "?M p @ u = ?M q @ u'" for p q u u'
    proof -
      have "json_quote (fst p) @ (0x3A # ?T (snd p) @ u) = json_quote (fst q) @ (0x3A # ?T (snd q) @ u')"
        using that(5) by simp
      then have "fst p = fst q \<and> 0x3A # ?T (snd p) @ u = 0x3A # ?T (snd q) @ u'"
        by (rule json_quote_prefix)
      then have k: "fst p = fst q" and t: "?T (snd p) @ u = ?T (snd q) @ u'"
        by simp_all
      have "snd p = snd q \<and> u = u'"
      proof (rule "6.IH"[OF that(1)])
        show "json_faithful fmt (snd p)" using fp that(1) by (simp add: list_all_iff)
        show "json_faithful fmt (snd q)" using fq that(2) by (simp add: list_all_iff)
      qed (use that t in simp_all)
      with k show ?thesis by (simp add: prod_eq_iff)
    qed
    show "?M p \<noteq> [] \<and> hd (?M p) \<noteq> 0x7D" if "p \<in> set ps \<union> set qs" for p
      by (simp add: json_quote_def)
    show "(0x7D :: code_unit) \<in> {0x5D, 0x7D}" by simp
    show "join_comma (map ?M ps) @ 0x7D # r = join_comma (map ?M qs) @ 0x7D # r'" by (rule e)
  qed
  then show ?case using w by simp
qed simp_all

lemma json_stringify_inj:
  assumes "json_faithful fmt v" and "json_faithful fmt w"
    and "json_stringify fmt v = json_stringify fmt w"
  shows "v = w"
  using json_text_prefix[OF assms(1,2), of "[]" "[]"] assms(3) by simp

section \<open>The stand-in number format\<close>

lemma unsafe_number_text: "\<not> safe_integer r \<Longrightarrow> number_to_string fmt r = fmt r"
  unfolding number_to_string_def safe_integer_def by (rule if_not_P)

lemma ratio_text_inj:
  assumes "int_to_radix 10 a @ ''+'' @ int_to_radix 10 b = int_to_radix 10 a' @ ''+'' @ int_to_radix 10 b'"
  shows "a = a' \<and> b = b'"
proof -
  let ?N = "set ''-0123456789''"
  have p: "''+'' @ s = [] \<or> hd (''+'' @ s) \<notin> ?N" for s by simp
  have "int_to_radix 10 a = int_to_radix 10 a' \<and>
      ''+'' @ int_to_radix 10 b = ''+'' @ int_to_radix 10 b'"
  proof (rule split_at_delimiter[where N = ?N])
    show "set (int_to_radix 10 a) \<subseteq> ?N" using int_to_radix_chars[of a] by blast
    show "set (int_to_radix 10 a') \<subseteq> ?N" using int_to_radix_chars[of a'] by blast
    show "''+'' @ int_to_radix 10 b = [] \<or> hd (''+'' @ int_to_radix 10 b) \<notin> ?N" by (rule p)
    show "''+'' @ int_to_radix 10 b' = [] \<or> hd (''+'' @ int_to_radix 10 b') \<notin> ?N" by (rule p)
    show "int_to_radix 10 a @ ''+'' @ int_to_radix 10 b =
        int_to_radix 10 a' @ ''+'' @ int_to_radix 10 b'" by (rule assms)
  qed
  then show ?thesis using int_to_radix_inj by simp
qed

lemma ratio_text_plus: "of_nat (of_char CHR ''+'') \<in> set (ratio_text r)"
  by (cases "quotient_of r") (simp add: ratio_text_def set_js)

lemma int_text_no_plus: "of_nat (of_char CHR ''+'') \<notin> set (js (int_to_radix 10 i))"
proof
  assume "of_nat (of_char CHR ''+'') \<in> set (js (int_to_radix 10 i))"
  then obtain c where c: "c \<in> set (int_to_radix 10 i)"
    and e: "(of_nat (of_char c) :: code_unit) = of_nat (of_char CHR ''+'')"
    by (auto simp: set_js)
  from e have "js [c] = js ''+''" by (simp add: js_def)
  then have "c = CHR ''+''" by simp
  moreover have "CHR ''+'' \<notin> set ''-0123456789''" by simp
  ultimately show False using c int_to_radix_chars[of i] by blast
qed

lemma ratio_text_faithful: "number_format_faithful ratio_text"
proof -
  have inj: "r = s" if e: "number_to_string ratio_text r = number_to_string ratio_text s" for r s
  proof (cases "safe_integer r")
    case r: True
    show ?thesis
    proof (cases "safe_integer s")
      case True
      with r e show ?thesis using number_text_inj[of r ratio_text s] by simp
    next
      case False
      then have "number_to_string ratio_text s = ratio_text s"
        by (rule unsafe_number_text)
      with e r have "js (int_to_radix 10 \<lfloor>r\<rfloor>) = ratio_text s"
        by (simp add: safe_integer_text)
      then show ?thesis using ratio_text_plus[of s] int_text_no_plus[of "\<lfloor>r\<rfloor>"] by simp
    qed
  next
    case r: False
    then have tr: "number_to_string ratio_text r = ratio_text r"
      by (rule unsafe_number_text)
    show ?thesis
    proof (cases "safe_integer s")
      case True
      with e tr have "js (int_to_radix 10 \<lfloor>s\<rfloor>) = ratio_text r"
        by (simp add: safe_integer_text)
      then show ?thesis using ratio_text_plus[of r] int_text_no_plus[of "\<lfloor>s\<rfloor>"] by simp
    next
      case False
      then have "number_to_string ratio_text s = ratio_text s"
        by (rule unsafe_number_text)
      with e tr have q: "ratio_text r = ratio_text s" by simp
      obtain a b where ab: "quotient_of r = (a, b)" by (cases "quotient_of r")
      obtain a' b' where ab': "quotient_of s = (a', b')" by (cases "quotient_of s")
      from q ab ab' have "a = a' \<and> b = b'"
        by (intro ratio_text_inj) (simp add: ratio_text_def)
      with ab ab' have "quotient_of r = quotient_of s" by simp
      then show ?thesis by (simp add: quotient_of_inject)
    qed
  qed
  have chars: "number_to_string ratio_text r \<noteq> [] \<and>
      set (number_to_string ratio_text r) \<subseteq> set (js ''0123456789+-.e'')" for r
  proof (cases "safe_integer r")
    case True
    then show ?thesis using number_text_chars[of r ratio_text] by simp
  next
    case False
    obtain a b where ab: "quotient_of r = (a, b)" by (cases "quotient_of r")
    have s: "set ''-0123456789'' \<subseteq> set ''0123456789+-.e''" by simp
    have "set (int_to_radix 10 a) \<subseteq> set ''0123456789+-.e''"
      and "set (int_to_radix 10 b) \<subseteq> set ''0123456789+-.e''"
      using int_to_radix_chars[of a] int_to_radix_chars[of b] s by (meson order_trans)+
    then have "set (int_to_radix 10 a @ ''+'' @ int_to_radix 10 b) \<subseteq> set ''0123456789+-.e''"
      by simp
    then have "set (js (int_to_radix 10 a @ ''+'' @ int_to_radix 10 b)) \<subseteq> set (js ''0123456789+-.e'')"
      by (rule set_js_mono)
    then show ?thesis using ab
      by (simp add: unsafe_number_text[OF False] ratio_text_def)
  qed
  show ?thesis unfolding number_format_faithful_def using inj chars by blast
qed

end
